theory Spec2Isabelle
  imports Complex_Main "HOL-Library.AList"
begin

section \<open>Errors raised by the program and by the libraries it calls\<close>

text \<open>
  The program (\<^verbatim>\<open>debruijn.py\<close>) raises no exception of its own; every failure comes
  from a library call: \<^verbatim>\<open>statistics.mean\<close> and \<^verbatim>\<open>statistics.stdev\<close> raise
  \<^verbatim>\<open>StatisticsError\<close>, \<^verbatim>\<open>DiGraph.remove_node\<close> and
  \<^verbatim>\<open>lowest_common_ancestor\<close> raise \<^verbatim>\<open>NetworkXError\<close>, and
  \<^verbatim>\<open>all_simple_paths\<close> and \<^verbatim>\<open>has_path\<close> raise \<^verbatim>\<open>NodeNotFound\<close>,
  \<^verbatim>\<open>max\<close> of an empty list and \<^verbatim>\<open>random.randint\<close> on an empty range raise
  \<^verbatim>\<open>ValueError\<close>, indexing an empty string raises \<^verbatim>\<open>IndexError\<close>, and reading a
  local variable that no branch has assigned raises \<^verbatim>\<open>UnboundLocalError\<close>.
  A function that can raise returns \<open>error + 'a\<close>, with \<open>Inl\<close> for the exception.
\<close>

datatype error =
    StatisticsError | NetworkXError | NodeNotFound | ValueError | IndexError | UnboundLocalError

section \<open>K-mer extraction\<close>

text \<open>
  \<^verbatim>\<open>cut_kmer\<close>: \<^verbatim>\<open>for i in range(len(read)-kmer_size+1): yield read[i:i+kmer_size]\<close>.
  The range is empty when its bound is not positive; the slice \<^verbatim>\<open>read[i:i+k]\<close> is
  \<open>take k (drop i read)\<close>. The k-mer size is a natural number here (the sizes the
  command line is meant to receive); the generator is the list of what it yields.
\<close>

definition cut_kmer :: "string \<Rightarrow> nat \<Rightarrow> string list" where
  "cut_kmer read kmer_size =
     map (\<lambda>i. take kmer_size (drop i read))
         [0 ..< nat (int (length read) - int kmer_size + 1)]"

text \<open>
  A Python \<^verbatim>\<open>dict\<close> keeps its keys in insertion order, and \<^verbatim>\<open>build_graph\<close> iterates
  over it, so the dictionary is an association list: \<^const>\<open>AList.update\<close> overwrites the
  value of a key that is present, in place, and appends a new key at the end.
  \<^verbatim>\<open>d.get(k, default)\<close> is \<open>dict_get\<close>.
\<close>

definition dict_get :: "('k \<times> 'v) list \<Rightarrow> 'k \<Rightarrow> 'v \<Rightarrow> 'v" where
  "dict_get d k dflt = (case map_of d k of None \<Rightarrow> dflt | Some v \<Rightarrow> v)"

text \<open>The loop body \<^verbatim>\<open>kmer_dict[kmer] = kmer_dict.get(kmer, 0)+1\<close>.\<close>

definition count_kmer :: "(string \<times> int) list \<Rightarrow> string \<Rightarrow> (string \<times> int) list" where
  "count_kmer kmer_dict kmer = AList.update kmer (dict_get kmer_dict kmer 0 + 1) kmer_dict"

text \<open>
  \<^verbatim>\<open>build_kmer_dict\<close>: the reads are the sequences that \<^verbatim>\<open>read_fastq\<close> yields (file
  reading is outside the model), taken in order.
\<close>

definition build_kmer_dict :: "string list \<Rightarrow> nat \<Rightarrow> (string \<times> int) list" where
  "build_kmer_dict reads kmer_size =
     foldl (\<lambda>kmer_dict read. foldl count_kmer kmer_dict (cut_kmer read kmer_size)) [] reads"

section \<open>The directed graph\<close>

text \<open>
  A \<^verbatim>\<open>networkx.DiGraph\<close> keeps its nodes, and for every node its successors and its
  predecessors, in dictionaries, hence in insertion order. The model keeps the nodes in
  insertion order and the weighted edges in the order in which they were first added;
  the successors (predecessors) of a node are then the targets (sources) of its edges in
  that order, which is the order of the adjacency dictionaries, and removals keep the
  relative order of what remains.
\<close>

record 'a digraph =
  nodes :: "'a list"
  edges :: "(('a \<times> 'a) \<times> int) list"

definition DiGraph :: "'a digraph" where
  "DiGraph = \<lparr>nodes = [], edges = []\<rparr>"

definition add_node :: "'a digraph \<Rightarrow> 'a \<Rightarrow> 'a digraph" where
  "add_node g n = (if n \<in> set (nodes g) then g else g\<lparr>nodes := nodes g @ [n]\<rparr>)"

text \<open>
  \<^verbatim>\<open>graph.add_edge(u, v, weight=w)\<close> adds the missing endpoints, \<open>u\<close> first, and sets
  the weight of the edge, overwriting the weight of an edge that is present.
\<close>

definition add_edge :: "'a digraph \<Rightarrow> 'a \<Rightarrow> 'a \<Rightarrow> int \<Rightarrow> 'a digraph" where
  "add_edge g u v w =
     (let g' = add_node (add_node g u) v
      in g'\<lparr>edges := AList.update (u, v) w (edges g')\<rparr>)"

definition successors :: "'a digraph \<Rightarrow> 'a \<Rightarrow> 'a list" where
  "successors g n = map (snd \<circ> fst) (filter (\<lambda>e. fst (fst e) = n) (edges g))"

definition predecessors :: "'a digraph \<Rightarrow> 'a \<Rightarrow> 'a list" where
  "predecessors g n = map (fst \<circ> fst) (filter (\<lambda>e. snd (fst e) = n) (edges g))"

text \<open>Deleting a node deletes its incident edges.\<close>

definition delete_node :: "'a digraph \<Rightarrow> 'a \<Rightarrow> 'a digraph" where
  "delete_node g n =
     \<lparr>nodes = filter (\<lambda>m. m \<noteq> n) (nodes g),
      edges = filter (\<lambda>e. fst (fst e) \<noteq> n \<and> snd (fst e) \<noteq> n) (edges g)\<rparr>"

text \<open>\<^verbatim>\<open>graph.remove_node(n)\<close> raises \<^verbatim>\<open>NetworkXError\<close> when \<open>n\<close> is not a node.\<close>

definition remove_node :: "'a digraph \<Rightarrow> 'a \<Rightarrow> error + 'a digraph" where
  "remove_node g n = (if n \<in> set (nodes g) then Inr (delete_node g n) else Inl NetworkXError)"

text \<open>\<^verbatim>\<open>graph.remove_nodes_from(ns)\<close> skips what is not a node.\<close>

definition remove_nodes_from :: "'a digraph \<Rightarrow> 'a list \<Rightarrow> 'a digraph" where
  "remove_nodes_from g ns = foldl delete_node g ns"

text \<open>The loop \<^verbatim>\<open>for node in ...: graph.remove_node(node)\<close>.\<close>

fun remove_each :: "'a digraph \<Rightarrow> 'a list \<Rightarrow> error + 'a digraph" where
  "remove_each g [] = Inr g"
| "remove_each g (n # ns) =
     (case remove_node g n of Inl e \<Rightarrow> Inl e | Inr g' \<Rightarrow> remove_each g' ns)"

section \<open>Building the graph\<close>

text \<open>
  \<^verbatim>\<open>build_graph\<close>: one \<^verbatim>\<open>add_edge(kmer[:-1], kmer[1:], weight=weight)\<close> for every item
  of the dictionary, in its order.
\<close>

definition build_graph :: "(string \<times> int) list \<Rightarrow> string digraph" where
  "build_graph kmer_dict =
     foldl (\<lambda>graph (kmer, weight). add_edge graph (butlast kmer) (tl kmer) weight)
           DiGraph kmer_dict"

section \<open>Statistics and randomness\<close>

text \<open>
  \<^verbatim>\<open>statistics.mean\<close> and \<^verbatim>\<open>statistics.stdev\<close> compute over exact fractions and round
  only their result to a float. The model keeps the exact rational: the rounding of the
  result is not modelled. \<^verbatim>\<open>stdev\<close> is the square root of the sample variance, and the
  program only compares it with zero; a square root is positive (zero) exactly when its
  argument is, so the model computes the sample variance and compares that.
\<close>

definition mean :: "rat list \<Rightarrow> error + rat" where
  "mean data = (if data = [] then Inl StatisticsError
                else Inr (sum_list data / of_nat (length data)))"

definition variance :: "rat list \<Rightarrow> error + rat" where
  "variance data =
     (if length data < 2 then Inl StatisticsError
      else let c = sum_list data / of_nat (length data)
           in Inr ((\<Sum>x\<leftarrow>data. (x - c) * (x - c)) / of_nat (length data - 1)))"

text \<open>\<^verbatim>\<open>max(xs)\<close> and \<^verbatim>\<open>xs.index(x)\<close> (the first position of \<open>x\<close>).\<close>

definition py_max :: "('b::linorder) list \<Rightarrow> error + 'b" where
  "py_max xs = (case xs of [] \<Rightarrow> Inl ValueError | x # rest \<Rightarrow> Inr (foldl max x rest))"

definition py_index :: "'b list \<Rightarrow> 'b \<Rightarrow> error + nat" where
  "py_index xs x = (if x \<in> set xs then Inr (length (takeWhile (\<lambda>y. y \<noteq> x) xs))
                    else Inl ValueError)"

text \<open>
  The module seeds the global generator once (\<^verbatim>\<open>random.seed(9001)\<close>) and
  \<^verbatim>\<open>select_best_path\<close> draws from it. The Mersenne Twister is not modelled: the state
  of the generator is the sequence of the raw numbers it will still produce, and
  \<^verbatim>\<open>random.randint(a, b)\<close> consumes the first of them to return a number of
  \<open>{a..b}\<close>.
\<close>

type_synonym rng = "nat \<Rightarrow> nat"

definition randint :: "rng \<Rightarrow> int \<Rightarrow> int \<Rightarrow> error + (int \<times> rng)" where
  "randint state a b =
     (if b < a then Inl ValueError
      else Inr (a + int (state 0) mod (b - a + 1), \<lambda>i. state (Suc i)))"

section \<open>Removing and selecting paths\<close>

text \<open>
  \<^verbatim>\<open>remove_paths\<close>: the slices \<^verbatim>\<open>path[:-1]\<close>, \<^verbatim>\<open>path[1:]\<close> and \<^verbatim>\<open>path[1:-1]\<close> are
  \<open>butlast\<close>, \<open>tl\<close> and \<open>butlast \<circ> tl\<close>. Only the first branch uses
  \<^verbatim>\<open>remove_nodes_from\<close>; the others call \<^verbatim>\<open>remove_node\<close> node by node.
\<close>

fun remove_paths ::
  "'a digraph \<Rightarrow> 'a list list \<Rightarrow> bool \<Rightarrow> bool \<Rightarrow> error + 'a digraph" where
  "remove_paths graph [] delete_entry_node delete_sink_node = Inr graph"
| "remove_paths graph (path # path_list) delete_entry_node delete_sink_node =
     (case (if delete_entry_node \<and> delete_sink_node then Inr (remove_nodes_from graph path)
            else if delete_entry_node then remove_each graph (butlast path)
            else if delete_sink_node then remove_each graph (tl path)
            else remove_each graph (butlast (tl path))) of
        Inl e \<Rightarrow> Inl e
      | Inr graph' \<Rightarrow> remove_paths graph' path_list delete_entry_node delete_sink_node)"

text \<open>
  The first half of \<^verbatim>\<open>select_best_path\<close>: the index of the path that is kept. The
  last \<^verbatim>\<open>elif std_lengths == 0\<close> has no \<^verbatim>\<open>else\<close>, so a deviation that is neither
  positive nor zero would leave \<^verbatim>\<open>best_path_index\<close> unassigned.
\<close>

definition best_path_index :: "int list \<Rightarrow> rat list \<Rightarrow> rng \<Rightarrow> error + (nat \<times> rng)" where
  "best_path_index path_length weight_avg_list state =
     (case variance weight_avg_list of
        Inl e \<Rightarrow> Inl e
      | Inr var_weights \<Rightarrow>
          if var_weights > 0 then
            (case py_max weight_avg_list of
               Inl e \<Rightarrow> Inl e
             | Inr m \<Rightarrow> (case py_index weight_avg_list m of
                          Inl e \<Rightarrow> Inl e | Inr i \<Rightarrow> Inr (i, state)))
          else
            (case variance (map of_int path_length) of
               Inl e \<Rightarrow> Inl e
             | Inr var_lengths \<Rightarrow>
                 if var_lengths > 0 then
                   (case py_max path_length of
                      Inl e \<Rightarrow> Inl e
                    | Inr m \<Rightarrow> (case py_index path_length m of
                                 Inl e \<Rightarrow> Inl e | Inr i \<Rightarrow> Inr (i, state)))
                 else if var_lengths = 0 then
                   (case randint state 0 (int (length path_length) - 1) of
                      Inl e \<Rightarrow> Inl e
                    | Inr (i, state') \<Rightarrow> Inr (nat i, state'))
                 else Inl UnboundLocalError))"

text \<open>\<^verbatim>\<open>[path for i, path in enumerate(path_list) if i != best_path_index]\<close>\<close>

definition paths_to_remove :: "'a list list \<Rightarrow> nat \<Rightarrow> 'a list list" where
  "paths_to_remove path_list best =
     map snd (filter (\<lambda>(i, path). i \<noteq> best) (enumerate 0 path_list))"

definition select_best_path ::
  "'a digraph \<Rightarrow> 'a list list \<Rightarrow> int list \<Rightarrow> rat list \<Rightarrow> bool \<Rightarrow> bool \<Rightarrow> rng
     \<Rightarrow> error + ('a digraph \<times> rng)" where
  "select_best_path graph path_list path_length weight_avg_list
                    delete_entry_node delete_sink_node state =
     (case best_path_index path_length weight_avg_list state of
        Inl e \<Rightarrow> Inl e
      | Inr (best, state') \<Rightarrow>
          (case remove_paths graph (paths_to_remove path_list best)
                             delete_entry_node delete_sink_node of
             Inl e \<Rightarrow> Inl e
           | Inr graph' \<Rightarrow> Inr (graph', state')))"

text \<open>
  \<^verbatim>\<open>path_average_weight\<close>: \<^verbatim>\<open>graph.subgraph(path)\<close> is the subgraph induced by the
  nodes of the path (what is not a node of the graph is ignored), so its edges are all
  the edges of the graph with both ends among them.
\<close>

definition subgraph_weights :: "'a digraph \<Rightarrow> 'a list \<Rightarrow> int list" where
  "subgraph_weights graph path =
     map snd (filter (\<lambda>e. fst (fst e) \<in> set path \<and> snd (fst e) \<in> set path) (edges graph))"

definition path_average_weight :: "'a digraph \<Rightarrow> 'a list \<Rightarrow> error + rat" where
  "path_average_weight graph path = mean (map of_int (subgraph_weights graph path))"

section \<open>Library queries on the graph\<close>

text \<open>
  The edge relation, and reachability along at least one edge as its transitive
  closure. \<^verbatim>\<open>has_path(G, s, t)\<close> raises \<^verbatim>\<open>NodeNotFound\<close> when an end is not a
  node and holds when \<open>t\<close> is \<open>s\<close> or can be reached from it.
\<close>

definition edge_rel :: "'a digraph \<Rightarrow> ('a \<times> 'a) set" where
  "edge_rel g = set (map fst (edges g))"

definition has_path :: "'a digraph \<Rightarrow> 'a \<Rightarrow> 'a \<Rightarrow> error + bool" where
  "has_path g s t =
     (if s \<notin> set (nodes g) \<or> t \<notin> set (nodes g) then Inl NodeNotFound
      else Inr (s = t \<or> (s, t) \<in> (edge_rel g)\<^sup>+))"

text \<open>
  \<^verbatim>\<open>all_simple_paths(G, source, target)\<close> is a depth-first search that follows the
  successors in their order, never enters a node that is on the current path, yields the
  path when it reaches the target and does not go on through it. It searches to the
  depth \<^verbatim>\<open>cutoff = len(G) - 1\<close>. \<open>simple_paths_from d g visited target\<close> lists the paths
  that extend the current path \<open>visited\<close> (a non-empty list, the current node last) by
  at most \<open>d\<close> edges. A missing end raises \<^verbatim>\<open>NodeNotFound\<close>; for a source that is the
  target the library versions differ (no path, or the one-node path), and the model
  yields no path.
\<close>

fun simple_paths_from :: "nat \<Rightarrow> 'a digraph \<Rightarrow> 'a list \<Rightarrow> 'a \<Rightarrow> 'a list list" where
  "simple_paths_from 0 g visited target = []"
| "simple_paths_from (Suc d) g visited target =
     concat (map (\<lambda>child.
                    if child \<in> set visited then []
                    else if child = target then [visited @ [child]]
                    else simple_paths_from d g (visited @ [child]) target)
                 (successors g (last visited)))"

definition all_simple_paths :: "'a digraph \<Rightarrow> 'a \<Rightarrow> 'a \<Rightarrow> error + 'a list list" where
  "all_simple_paths g source target =
     (if source \<notin> set (nodes g) \<or> target \<notin> set (nodes g) then Inl NodeNotFound
      else if source = target then Inr []
      else Inr (simple_paths_from (length (nodes g) - 1) g [source] target))"

text \<open>
  \<^verbatim>\<open>is_directed_acyclic_graph\<close>: no node lies on a cycle. A node on a cycle is the
  source of an edge, so it is enough to look at those.
\<close>

definition is_directed_acyclic_graph :: "'a digraph \<Rightarrow> bool" where
  "is_directed_acyclic_graph g =
     (\<forall>e \<in> set (edges g). (fst (fst e), fst (fst e)) \<notin> (edge_rel g)\<^sup>+)"

text \<open>\<^verbatim>\<open>nx.ancestors(G, v)\<close> with \<open>v\<close> added, in node order.\<close>

definition ancestors_or_self :: "'a digraph \<Rightarrow> 'a \<Rightarrow> 'a list" where
  "ancestors_or_self g v = filter (\<lambda>u. u = v \<or> (u, v) \<in> (edge_rel g)\<^sup>+) (nodes g)"

definition common_ancestors :: "'a digraph \<Rightarrow> 'a \<Rightarrow> 'a \<Rightarrow> 'a list" where
  "common_ancestors g v w =
     filter (\<lambda>u. u \<in> set (ancestors_or_self g w)) (ancestors_or_self g v)"

text \<open>
  \<^verbatim>\<open>lowest_common_ancestor(G, v, w)\<close> raises \<^verbatim>\<open>NetworkXError\<close> on a graph with a cycle
  and returns \<^verbatim>\<open>None\<close> when \<open>v\<close> and \<open>w\<close> have no common ancestor. Otherwise it starts
  from one common ancestor and walks down, stepping to the first successor that is a
  common ancestor too, until there is none:
  \<^verbatim>\<open>
      common_ancestor = next(iter(common_ancestors))
      while True:
          successor = None
          for lower_ancestor in G.successors(common_ancestor):
              if lower_ancestor in common_ancestors:
                  successor = lower_ancestor
                  break
          if successor is None:
              break
          common_ancestor = successor
  \<close>
  The common ancestors are a Python set, whose iteration order is not specified: the
  parameter \<open>pick\<close> stands for the choice of the first element. Every lowest common
  ancestor is the result for some choice, so the parameter also covers the library
  versions that find a lowest common ancestor in another way.
  \<open>lca_walk\<close> is the loop as it is written; \<open>lca_descend\<close> is the same walk bounded by
  a number of steps, which is what the model of \<^verbatim>\<open>lowest_common_ancestor\<close> uses. In an
  acyclic graph the walk never needs more steps than there are common ancestors
  (lemma \<open>lca_walk_descend\<close> below).
\<close>

partial_function (option) lca_walk :: "'a digraph \<Rightarrow> 'a list \<Rightarrow> 'a \<Rightarrow> 'a option" where
  "lca_walk g common c =
     (case find (\<lambda>s. s \<in> set common) (successors g c) of
        None \<Rightarrow> Some c
      | Some s \<Rightarrow> lca_walk g common s)"

fun lca_descend :: "nat \<Rightarrow> 'a digraph \<Rightarrow> 'a list \<Rightarrow> 'a \<Rightarrow> 'a" where
  "lca_descend 0 g common c = c"
| "lca_descend (Suc n) g common c =
     (case find (\<lambda>s. s \<in> set common) (successors g c) of
        None \<Rightarrow> c
      | Some s \<Rightarrow> lca_descend n g common s)"

definition lowest_common_ancestor ::
  "('a list \<Rightarrow> 'a) \<Rightarrow> 'a digraph \<Rightarrow> 'a \<Rightarrow> 'a \<Rightarrow> error + 'a option" where
  "lowest_common_ancestor pick g v w =
     (if \<not> is_directed_acyclic_graph g then Inl NetworkXError
      else if v \<notin> set (nodes g) \<or> w \<notin> set (nodes g) then Inl NodeNotFound
      else let common = common_ancestors g v w
           in if common = [] then Inr None
              else Inr (Some (lca_descend (length common) g common (pick common))))"

section \<open>Bubbles\<close>

text \<open>The exceptions of a list comprehension: the first one raised, in list order.\<close>

fun sequence_err :: "(error + 'b) list \<Rightarrow> error + 'b list" where
  "sequence_err [] = Inr []"
| "sequence_err (x # xs) =
     (case x of
        Inl e \<Rightarrow> Inl e
      | Inr v \<Rightarrow> (case sequence_err xs of Inl e \<Rightarrow> Inl e | Inr vs \<Rightarrow> Inr (v # vs)))"

text \<open>
  \<^verbatim>\<open>solve_bubble\<close>. The ancestor that \<^verbatim>\<open>simplify_bubbles\<close> passes can be \<^verbatim>\<open>None\<close>, which
  is never a node: \<^verbatim>\<open>all_simple_paths\<close> then raises \<^verbatim>\<open>NodeNotFound\<close>.
\<close>

definition solve_bubble ::
  "'a digraph \<Rightarrow> 'a option \<Rightarrow> 'a \<Rightarrow> rng \<Rightarrow> error + ('a digraph \<times> rng)" where
  "solve_bubble graph ancestor_node descendant_node state =
     (case ancestor_node of
        None \<Rightarrow> Inl NodeNotFound
      | Some a \<Rightarrow>
          (case all_simple_paths graph a descendant_node of
             Inl e \<Rightarrow> Inl e
           | Inr path_list \<Rightarrow>
               (case sequence_err (map (path_average_weight graph) path_list) of
                  Inl e \<Rightarrow> Inl e
                | Inr weight_avg_list \<Rightarrow>
                    select_best_path graph path_list (map (int \<circ> length) path_list)
                                     weight_avg_list False False state)))"

text \<open>
  The scan of \<^verbatim>\<open>simplify_bubbles\<close>. Its state is the pair of the local variables
  \<^verbatim>\<open>bubble\<close> and \<^verbatim>\<open>ancestor_node\<close> (\<open>None\<close> for \<^verbatim>\<open>None\<close>; the variable is read only
  after it was assigned). \<open>scan_j\<close> is the innermost loop over \<open>j\<close>, which the
  \<^verbatim>\<open>break\<close> leaves; \<open>scan_i\<close> is the loop over \<open>i\<close>, which has no \<^verbatim>\<open>break\<close> and so runs
  to its end; \<open>scan_nodes\<close> is the loop over the nodes, left once \<^verbatim>\<open>bubble\<close> is set, and
  returns the ancestor and the node of the bubble, if any.
\<close>

fun scan_j ::
  "('a list \<Rightarrow> 'a) \<Rightarrow> 'a digraph \<Rightarrow> 'a list \<Rightarrow> nat \<Rightarrow> nat list \<Rightarrow> bool \<times> 'a option
     \<Rightarrow> error + (bool \<times> 'a option)" where
  "scan_j pick g preds i [] st = Inr st"
| "scan_j pick g preds i (j # js) st =
     (case lowest_common_ancestor pick g (preds ! i) (preds ! j) of
        Inl e \<Rightarrow> Inl e
      | Inr None \<Rightarrow> scan_j pick g preds i js (fst st, None)
      | Inr (Some a) \<Rightarrow> Inr (True, Some a))"

fun scan_i ::
  "('a list \<Rightarrow> 'a) \<Rightarrow> 'a digraph \<Rightarrow> 'a list \<Rightarrow> nat list \<Rightarrow> bool \<times> 'a option
     \<Rightarrow> error + (bool \<times> 'a option)" where
  "scan_i pick g preds [] st = Inr st"
| "scan_i pick g preds (i # is) st =
     (case scan_j pick g preds i [Suc i ..< length preds] st of
        Inl e \<Rightarrow> Inl e
      | Inr st' \<Rightarrow> scan_i pick g preds is st')"

fun scan_nodes ::
  "('a list \<Rightarrow> 'a) \<Rightarrow> 'a digraph \<Rightarrow> 'a list \<Rightarrow> bool \<times> 'a option
     \<Rightarrow> error + ('a option \<times> 'a) option" where
  "scan_nodes pick g [] st = Inr None"
| "scan_nodes pick g (node # rest) st =
     (let list_predecessors = predecessors g node
      in case (if length list_predecessors > 1
               then scan_i pick g list_predecessors [0 ..< length list_predecessors] st
               else Inr st) of
           Inl e \<Rightarrow> Inl e
         | Inr st' \<Rightarrow> if fst st' then Inr (Some (snd st', node))
                      else scan_nodes pick g rest st')"

text \<open>
  \<^verbatim>\<open>simplify_bubbles\<close> calls itself on the graph that \<^verbatim>\<open>solve_bubble\<close> returns, with no
  bound on the number of rounds: \<open>None\<close> is a run that does not return, \<open>Some (Inl e)\<close> a
  run that raises \<open>e\<close>, \<open>Some (Inr (graph, state))\<close> a run that returns the graph.
  The interpreter's bound on the depth of recursion is not modelled (a run of more
  rounds than the bound raises \<^verbatim>\<open>RecursionError\<close>); the same holds for the two tip
  functions below.
\<close>

partial_function (option) simplify_bubbles ::
  "('a list \<Rightarrow> 'a) \<Rightarrow> 'a digraph \<Rightarrow> rng \<Rightarrow> (error + ('a digraph \<times> rng)) option" where
  "simplify_bubbles pick graph state =
     (case scan_nodes pick graph (nodes graph) (False, None) of
        Inl e \<Rightarrow> Some (Inl e)
      | Inr None \<Rightarrow> Some (Inr (graph, state))
      | Inr (Some (ancestor_node, node)) \<Rightarrow>
          (case solve_bubble graph ancestor_node node state of
             Inl e \<Rightarrow> Some (Inl e)
           | Inr (graph', state') \<Rightarrow> simplify_bubbles pick graph' state'))"

section \<open>Tips\<close>

definition get_starting_nodes :: "'a digraph \<Rightarrow> 'a list" where
  "get_starting_nodes graph = filter (\<lambda>node. length (predecessors graph node) = 0) (nodes graph)"

definition get_sink_nodes :: "'a digraph \<Rightarrow> 'a list" where
  "get_sink_nodes graph = filter (\<lambda>node. length (successors graph node) = 0) (nodes graph)"

text \<open>
  The inner accumulation of both tip functions,
  \<^verbatim>\<open>if has_path(graph, s, t): path_list += list(all_simple_paths(graph, s, t))\<close>, over a
  list of pairs of ends.
\<close>

fun gather_paths :: "'a digraph \<Rightarrow> ('a \<times> 'a) list \<Rightarrow> error + 'a list list" where
  "gather_paths graph [] = Inr []"
| "gather_paths graph ((s, t) # rest) =
     (case has_path graph s t of
        Inl e \<Rightarrow> Inl e
      | Inr linked \<Rightarrow>
          (case (if linked then all_simple_paths graph s t else Inr []) of
             Inl e \<Rightarrow> Inl e
           | Inr found \<Rightarrow>
               (case gather_paths graph rest of
                  Inl e \<Rightarrow> Inl e
                | Inr others \<Rightarrow> Inr (found @ others))))"

text \<open>
  The scan of \<^verbatim>\<open>solve_entry_tips\<close> stops at the first node that is not a starting node
  and has more than one predecessor, with the paths that reach it from the starting
  nodes; \<open>None\<close> when there is no such node (\<^verbatim>\<open>point\<close> stays false).
\<close>

definition entry_tip_scan :: "'a digraph \<Rightarrow> 'a list \<Rightarrow> error + ('a list list) option" where
  "entry_tip_scan graph starting_nodes =
     (case find (\<lambda>node. node \<notin> set starting_nodes \<and> length (predecessors graph node) > 1)
                (nodes graph) of
        None \<Rightarrow> Inr None
      | Some node \<Rightarrow>
          (case gather_paths graph (map (\<lambda>start_node. (start_node, node)) starting_nodes) of
             Inl e \<Rightarrow> Inl e
           | Inr path_list \<Rightarrow> Inr (Some path_list)))"

definition out_tip_scan :: "'a digraph \<Rightarrow> 'a list \<Rightarrow> error + ('a list list) option" where
  "out_tip_scan graph ending_nodes =
     (case find (\<lambda>node. node \<notin> set ending_nodes \<and> length (successors graph node) > 1)
                (nodes graph) of
        None \<Rightarrow> Inr None
      | Some node \<Rightarrow>
          (case gather_paths graph (map (\<lambda>end_node. (node, end_node)) ending_nodes) of
             Inl e \<Rightarrow> Inl e
           | Inr path_list \<Rightarrow> Inr (Some path_list)))"

text \<open>
  One resolution of a tip: the statistics of the paths and the call of
  \<^verbatim>\<open>select_best_path\<close> with the two deletion flags.
\<close>

definition resolve_tip ::
  "'a digraph \<Rightarrow> 'a list list \<Rightarrow> bool \<Rightarrow> bool \<Rightarrow> rng \<Rightarrow> error + ('a digraph \<times> rng)" where
  "resolve_tip graph path_list delete_entry_node delete_sink_node state =
     (case sequence_err (map (path_average_weight graph) path_list) of
        Inl e \<Rightarrow> Inl e
      | Inr weight_avg_list \<Rightarrow>
          select_best_path graph path_list (map (int \<circ> length) path_list) weight_avg_list
                           delete_entry_node delete_sink_node state)"

partial_function (option) solve_entry_tips ::
  "'a digraph \<Rightarrow> 'a list \<Rightarrow> rng \<Rightarrow> (error + ('a digraph \<times> rng)) option" where
  "solve_entry_tips graph starting_nodes state =
     (case entry_tip_scan graph starting_nodes of
        Inl e \<Rightarrow> Some (Inl e)
      | Inr None \<Rightarrow> Some (Inr (graph, state))
      | Inr (Some path_list) \<Rightarrow>
          if length path_list > 1 then
            (case resolve_tip graph path_list True False state of
               Inl e \<Rightarrow> Some (Inl e)
             | Inr (graph', state') \<Rightarrow>
                 solve_entry_tips graph' (get_starting_nodes graph') state')
          else Some (Inr (graph, state)))"

partial_function (option) solve_out_tips ::
  "'a digraph \<Rightarrow> 'a list \<Rightarrow> rng \<Rightarrow> (error + ('a digraph \<times> rng)) option" where
  "solve_out_tips graph ending_nodes state =
     (case out_tip_scan graph ending_nodes of
        Inl e \<Rightarrow> Some (Inl e)
      | Inr None \<Rightarrow> Some (Inr (graph, state))
      | Inr (Some path_list) \<Rightarrow>
          if length path_list > 1 then
            (case resolve_tip graph path_list False True state of
               Inl e \<Rightarrow> Some (Inl e)
             | Inr (graph', state') \<Rightarrow>
                 solve_out_tips graph' (get_sink_nodes graph') state')
          else Some (Inr (graph, state)))"

section \<open>Contigs\<close>

text \<open>
  The contig of a path is its first node followed by the last character of every other
  node; \<^verbatim>\<open>node[-1]\<close> raises \<^verbatim>\<open>IndexError\<close> on an empty node.
\<close>

definition contig_of :: "string list \<Rightarrow> error + (string \<times> nat)" where
  "contig_of a_path =
     (case a_path of
        [] \<Rightarrow> Inl IndexError
      | first # rest \<Rightarrow>
          if [] \<in> set rest then Inl IndexError
          else Inr (first @ map last rest, length (first @ map last rest)))"

fun contigs_between ::
  "string digraph \<Rightarrow> (string \<times> string) list \<Rightarrow> error + (string \<times> nat) list" where
  "contigs_between graph [] = Inr []"
| "contigs_between graph ((node_start, node_end) # rest) =
     (case has_path graph node_start node_end of
        Inl e \<Rightarrow> Inl e
      | Inr linked \<Rightarrow>
          (case (if linked then all_simple_paths graph node_start node_end else Inr []) of
             Inl e \<Rightarrow> Inl e
           | Inr found \<Rightarrow>
               (case sequence_err (map contig_of found) of
                  Inl e \<Rightarrow> Inl e
                | Inr contigs \<Rightarrow>
                    (case contigs_between graph rest of
                       Inl e \<Rightarrow> Inl e
                     | Inr others \<Rightarrow> Inr (contigs @ others)))))"

definition get_contigs ::
  "string digraph \<Rightarrow> string list \<Rightarrow> string list \<Rightarrow> error + (string \<times> nat) list" where
  "get_contigs graph starting_nodes ending_nodes =
     contigs_between graph
       (concat (map (\<lambda>node_start. map (\<lambda>node_end. (node_start, node_end)) ending_nodes)
                    starting_nodes))"

text \<open>
  \<^verbatim>\<open>main\<close>, from the reads to the list of contigs (reading the file, writing the
  contigs and drawing the graph are outside the model).
\<close>

definition main ::
  "(string list \<Rightarrow> string) \<Rightarrow> string list \<Rightarrow> nat \<Rightarrow> rng
     \<Rightarrow> (error + (string \<times> nat) list) option" where
  "main pick reads kmer_size state =
     (let graph = build_graph (build_kmer_dict reads kmer_size)
      in case simplify_bubbles pick graph state of
           None \<Rightarrow> None
         | Some (Inl e) \<Rightarrow> Some (Inl e)
         | Some (Inr (graph1, state1)) \<Rightarrow>
             (case solve_entry_tips graph1 (get_starting_nodes graph1) state1 of
                None \<Rightarrow> None
              | Some (Inl e) \<Rightarrow> Some (Inl e)
              | Some (Inr (graph2, state2)) \<Rightarrow>
                  (case solve_out_tips graph2 (get_sink_nodes graph2) state2 of
                     None \<Rightarrow> None
                   | Some (Inl e) \<Rightarrow> Some (Inl e)
                   | Some (Inr (graph3, state3)) \<Rightarrow>
                       Some (get_contigs graph3 (get_starting_nodes graph3)
                                         (get_sink_nodes graph3)))))"

section \<open>Notions used to state the properties\<close>

text \<open>
  What every edge of a graph built from k-mers of length \<open>k\<close> satisfies, and what it
  means for a graph to have no isolated node.
\<close>

definition shifted_edges :: "nat \<Rightarrow> string digraph \<Rightarrow> bool" where
  "shifted_edges k g =
     (\<forall>e \<in> set (edges g).
        tl (fst (fst e)) = butlast (snd (fst e)) \<and> int (length (fst (fst e))) = int k - 1
        \<and> int (length (snd (fst e))) = int k - 1 \<and> 1 \<le> snd e)"

definition no_isolated_node :: "'a digraph \<Rightarrow> bool" where
  "no_isolated_node g = (\<forall>n \<in> set (nodes g). \<exists>e \<in> edge_rel g. n = fst e \<or> n = snd e)"

text \<open>A list without spread: all its elements are equal.\<close>

definition all_equal :: "'b list \<Rightarrow> bool" where
  "all_equal xs = (\<forall>x \<in> set xs. \<forall>y \<in> set xs. x = y)"

text \<open>
  The graph without a set of nodes and their incident edges, and the part of a path
  that \<^verbatim>\<open>remove_paths\<close> removes under the two deletion flags.
\<close>

definition delete_nodes :: "'a digraph \<Rightarrow> 'a list \<Rightarrow> 'a digraph" where
  "delete_nodes g ns =
     \<lparr>nodes = filter (\<lambda>m. m \<notin> set ns) (nodes g),
      edges = filter (\<lambda>e. fst (fst e) \<notin> set ns \<and> snd (fst e) \<notin> set ns) (edges g)\<rparr>"

definition removed_part :: "bool \<Rightarrow> bool \<Rightarrow> 'a list \<Rightarrow> 'a list" where
  "removed_part delete_entry_node delete_sink_node path =
     (if delete_entry_node \<and> delete_sink_node then path
      else if delete_entry_node then butlast path
      else if delete_sink_node then tl path
      else butlast (tl path))"


text \<open>
  In a \<^verbatim>\<open>DiGraph\<close> the ends of every edge are nodes; the record does not enforce it,
  so it is a hypothesis where it matters. \<open>bubble_at\<close> is the condition that the
  specification gives for a bubble: the node has two predecessors with a common
  ancestor.
\<close>

definition wf_digraph :: "'a digraph \<Rightarrow> bool" where
  "wf_digraph g =
     (\<forall>e \<in> set (edges g). fst (fst e) \<in> set (nodes g) \<and> snd (fst e) \<in> set (nodes g))"

definition bubble_at :: "'a digraph \<Rightarrow> 'a \<Rightarrow> bool" where
  "bubble_at g node =
     (\<exists>j < length (predecessors g node). \<exists>i < j.
        common_ancestors g (predecessors g node ! i) (predecessors g node ! j) \<noteq> [])"

section \<open>Example graphs\<close>

text \<open>The graph of the reads \<open>ACGT\<close> and \<open>CGTA\<close>, a single path.\<close>

definition example_graph :: "string digraph" where
  "example_graph =
     \<lparr>nodes = [''AC'', ''CG'', ''GT'', ''TA''],
      edges = [((''AC'', ''CG''), 1), ((''CG'', ''GT''), 2), ((''GT'', ''TA''), 1)]\<rparr>"

text \<open>
  A bubble with three branches from node 1 to node 5, two of them of average weight 5,
  and what is left of it after its simplification.
\<close>

definition bubble3 :: "nat digraph" where
  "bubble3 = \<lparr>nodes = [1, 2, 5, 3, 4],
      edges = [((1, 2), 5), ((2, 5), 5), ((1, 3), 5), ((3, 5), 5), ((1, 4), 3), ((4, 5), 3)]\<rparr>"

definition bubble3_simplified :: "nat digraph" where
  "bubble3_simplified = \<lparr>nodes = [1, 2, 5], edges = [((1, 2), 5), ((2, 5), 5)]\<rparr>"




text \<open>
  The graph of the reads \<open>GACG\<close> and \<open>GATCG\<close>, a bubble from \<open>GA\<close> to \<open>CG\<close> with two
  branches, and what is left of it after its simplification; the graph of the reads
  \<open>GACG\<close>, \<open>GATCG\<close> and \<open>GCG\<close>, where \<open>CG\<close> has the third predecessor \<open>GC\<close>, which has
  no ancestor; and the graph of the reads \<open>AAA\<close>, \<open>ACG\<close> and \<open>TCG\<close>, with a loop on
  \<open>AA\<close> and two unrelated predecessors of \<open>CG\<close>.
\<close>

definition two_branches :: "string digraph" where
  "two_branches =
     \<lparr>nodes = [''GA'', ''AC'', ''CG'', ''AT'', ''TC''],
      edges = [((''GA'', ''AC''), 1), ((''AC'', ''CG''), 1), ((''GA'', ''AT''), 1),
               ((''AT'', ''TC''), 1), ((''TC'', ''CG''), 1)]\<rparr>"

definition two_branches_simplified :: "string digraph" where
  "two_branches_simplified =
     \<lparr>nodes = [''GA'', ''CG'', ''AT'', ''TC''],
      edges = [((''GA'', ''AT''), 1), ((''AT'', ''TC''), 1), ((''TC'', ''CG''), 1)]\<rparr>"

definition three_predecessors :: "string digraph" where
  "three_predecessors =
     \<lparr>nodes = [''GA'', ''AC'', ''CG'', ''AT'', ''TC'', ''GC''],
      edges = [((''GA'', ''AC''), 1), ((''AC'', ''CG''), 1), ((''GA'', ''AT''), 1),
               ((''AT'', ''TC''), 1), ((''TC'', ''CG''), 1), ((''GC'', ''CG''), 1)]\<rparr>"

definition loop_and_join :: "string digraph" where
  "loop_and_join =
     \<lparr>nodes = [''AA'', ''AC'', ''CG'', ''TC''],
      edges = [((''AA'', ''AA''), 1), ((''AC'', ''CG''), 1), ((''TC'', ''CG''), 1)]\<rparr>"

text \<open>
  The graph of four reads \<open>ACCG\<close> and one read \<open>ACG\<close>: the path \<open>AC, CC, CG\<close> of weight 4
  with the chord \<open>AC \<rightarrow> CG\<close> of weight 1.
\<close>

definition chord_graph :: "string digraph" where
  "chord_graph = \<lparr>nodes = [''AC'', ''CC'', ''CG''],
      edges = [((''AC'', ''CC''), 4), ((''CC'', ''CG''), 4), ((''AC'', ''CG''), 1)]\<rparr>"

section \<open>Properties of the k-mer extraction\<close>

lemma length_cut_kmer:
  "int (length (cut_kmer read k)) = max 0 (int (length read) - int k + 1)"
  by (simp add: cut_kmer_def)

lemma sum_count_kmer:
  "sum_list (map snd (count_kmer d kmer)) = sum_list (map snd d) + 1"
proof (induction d)
  case Nil
  show ?case by (simp add: count_kmer_def dict_get_def)
next
  case (Cons p d)
  obtain a b where p: "p = (a, b)" by (cases p)
  show ?case
  proof (cases "a = kmer")
    case True
    then show ?thesis by (simp add: p count_kmer_def dict_get_def)
  next
    case False
    with Cons.IH show ?thesis by (simp add: p count_kmer_def dict_get_def)
  qed
qed

lemma sum_foldl_count_kmer:
  "sum_list (map snd (foldl count_kmer d kmers)) = sum_list (map snd d) + int (length kmers)"
  by (induction kmers arbitrary: d) (simp_all add: sum_count_kmer)

lemma sum_foldl_reads:
  "sum_list (map snd (foldl (\<lambda>kd read. foldl count_kmer kd (cut_kmer read k)) d reads))
     = sum_list (map snd d) + (\<Sum>read\<leftarrow>reads. max 0 (int (length read) - int k + 1))"
proof (induction reads arbitrary: d)
  case Nil
  show ?case by simp
next
  case (Cons r reads)
  show ?case
    by (simp add: Cons.IH sum_foldl_count_kmer length_cut_kmer del: of_nat_diff)
qed

text \<open>
  C8. The values of the mapping built from the reads add up to the number of k-mer
  occurrences, and that number is the sum over the reads of
  \<open>max 0 (len(read) - k + 1)\<close>; a read shorter than \<open>k\<close> (of length \<open>k - 1 - d\<close>, written
  here as \<open>k = length read + 1 + d\<close>) yields no k-mer at all. This holds for every
  k-mer size of the model, in particular for every positive one.
\<close>

theorem kmer_count_total:
  "sum_list (map snd (build_kmer_dict reads k))
     = (\<Sum>read\<leftarrow>reads. max 0 (int (length read) - int k + 1))
   \<and> length (cut_kmer read k) = nat (max 0 (int (length read) - int k + 1))
   \<and> cut_kmer read (length read + 1 + d) = []"
proof -
  have "sum_list (map snd (build_kmer_dict reads k))
     = (\<Sum>read\<leftarrow>reads. max 0 (int (length read) - int k + 1))"
    unfolding build_kmer_dict_def by (simp add: sum_foldl_reads)
  moreover have "length (cut_kmer read k) = nat (max 0 (int (length read) - int k + 1))"
    by (simp add: cut_kmer_def)
  moreover have "cut_kmer read (length read + 1 + d) = []"
    by (simp add: cut_kmer_def)
  ultimately show ?thesis by blast
qed

section \<open>The built graph\<close>

lemma set_update_subset: "set (AList.update k v al) \<subseteq> insert (k, v) (set al)"
  by (induction al) auto

lemma nodes_add_edge: "set (nodes (add_edge g u v w)) = insert u (insert v (set (nodes g)))"
  by (auto simp: add_edge_def add_node_def Let_def)

lemma edge_rel_add_edge: "edge_rel (add_edge g u v w) = insert (u, v) (edge_rel g)"
  by (simp add: add_edge_def edge_rel_def Let_def add_node_def dom_update)

lemma edges_add_edge: "set (edges (add_edge g u v w)) \<subseteq> insert ((u, v), w) (set (edges g))"
  using set_update_subset [of "(u, v)" w "edges g"]
  by (simp add: add_edge_def Let_def add_node_def)

lemma tl_butlast: "tl (butlast xs) = butlast (tl xs)"
  by (cases xs) (auto simp: butlast_tl)

lemma shifted_edges_add_edge:
  assumes "shifted_edges k g" "length kmer = k" "1 \<le> k" "1 \<le> w"
  shows "shifted_edges k (add_edge g (butlast kmer) (tl kmer) w)"
proof -
  have new: "tl (butlast kmer) = butlast (tl kmer)
      \<and> int (length (butlast kmer)) = int k - 1 \<and> int (length (tl kmer)) = int k - 1"
    using assms(2,3) by (simp add: tl_butlast)
  show ?thesis
    unfolding shifted_edges_def
  proof
    fix e assume "e \<in> set (edges (add_edge g (butlast kmer) (tl kmer) w))"
    then have "e = ((butlast kmer, tl kmer), w) \<or> e \<in> set (edges g)"
      using edges_add_edge [of g "butlast kmer" "tl kmer" w] by blast
    then show "tl (fst (fst e)) = butlast (snd (fst e)) \<and> int (length (fst (fst e))) = int k - 1
        \<and> int (length (snd (fst e))) = int k - 1 \<and> 1 \<le> snd e"
      using new assms(1,4) unfolding shifted_edges_def by auto
  qed
qed

lemma no_isolated_node_add_edge:
  assumes "no_isolated_node g"
  shows "no_isolated_node (add_edge g u v w)"
  using assms unfolding no_isolated_node_def
  by (auto simp: nodes_add_edge edge_rel_add_edge)

lemma build_graph_foldl:
  assumes "1 \<le> k" "\<forall>(kmer, c) \<in> set kmer_dict. length kmer = k \<and> 1 \<le> c"
    and "shifted_edges k g" "no_isolated_node g"
  shows "shifted_edges k (foldl (\<lambda>graph (kmer, weight). add_edge graph (butlast kmer) (tl kmer) weight) g kmer_dict)
       \<and> no_isolated_node (foldl (\<lambda>graph (kmer, weight). add_edge graph (butlast kmer) (tl kmer) weight) g kmer_dict)"
  using assms(2-)
proof (induction kmer_dict arbitrary: g)
  case Nil
  then show ?case by simp
next
  case (Cons p kmer_dict)
  obtain kmer c where p: "p = (kmer, c)" by (cases p)
  have a: "length kmer = k" "1 \<le> c" using Cons.prems(1) p by auto
  have b: "shifted_edges k (add_edge g (butlast kmer) (tl kmer) c)"
    using shifted_edges_add_edge [OF Cons.prems(2) a(1) assms(1) a(2)] .
  have c: "no_isolated_node (add_edge g (butlast kmer) (tl kmer) c)"
    using no_isolated_node_add_edge [OF Cons.prems(3)] .
  have d: "\<forall>(kmer, c) \<in> set kmer_dict. length kmer = k \<and> 1 \<le> c"
    using Cons.prems(1) by simp
  show ?case using Cons.IH [OF d b c] by (simp add: p)
qed

text \<open>
  C6. For a k-mer dictionary whose keys all have length \<open>k \<ge> 2\<close> and whose counts are
  all at least 1, every edge \<open>(a, b)\<close> of the built graph satisfies \<open>a[1:] = b[:-1]\<close>,
  both ends have length \<open>k - 1\<close>, its weight is at least 1; and every node of the graph
  is an end of some edge.
\<close>

theorem build_graph_invariant:
  assumes "2 \<le> k" and "\<forall>(kmer, c) \<in> set kmer_dict. length kmer = k \<and> 1 \<le> c"
  shows "(\<forall>((a, b), w) \<in> set (edges (build_graph kmer_dict)).
            tl a = butlast b \<and> int (length a) = int k - 1 \<and> int (length b) = int k - 1 \<and> 1 \<le> w)
       \<and> (\<forall>n \<in> set (nodes (build_graph kmer_dict)).
            \<exists>((a, b), w) \<in> set (edges (build_graph kmer_dict)). n = a \<or> n = b)"
proof -
  have k: "1 \<le> k" using assms(1) by simp
  have s: "shifted_edges k (DiGraph :: string digraph)"
    by (simp add: shifted_edges_def DiGraph_def)
  have n: "no_isolated_node (DiGraph :: string digraph)"
    by (simp add: no_isolated_node_def DiGraph_def)
  have "shifted_edges k (build_graph kmer_dict) \<and> no_isolated_node (build_graph kmer_dict)"
    unfolding build_graph_def using build_graph_foldl [OF k assms(2) s n] .
  then show ?thesis
    unfolding shifted_edges_def no_isolated_node_def edge_rel_def by fastforce
qed

text \<open>The theorem at the dictionary of the round-trip scenario.\<close>

theorem build_graph_invariant_witness:
  "list_all (\<lambda>(kmer, c). length kmer = 3 \<and> 1 \<le> c) [(''ACG'', 1), (''CGT'', 2), (''GTA'', 1::int)]
   \<and> list_all (\<lambda>((a, b), w). tl a = butlast b \<and> int (length a) = int 3 - 1
                              \<and> int (length b) = int 3 - 1 \<and> 1 \<le> w)
        (edges (build_graph [(''ACG'', 1), (''CGT'', 2), (''GTA'', 1)]))
   \<and> list_all (\<lambda>n. \<exists>((a, b), w) \<in> set (edges (build_graph [(''ACG'', 1), (''CGT'', 2), (''GTA'', 1)])).
                      n = a \<or> n = b)
        (nodes (build_graph [(''ACG'', 1), (''CGT'', 2), (''GTA'', 1)]))"
proof -
  have h1: "(2::nat) \<le> 3" by simp
  have h2: "\<forall>(kmer, c) \<in> set [(''ACG'', 1), (''CGT'', 2), (''GTA'', 1::int)]. length kmer = 3 \<and> 1 \<le> c"
    by simp
  show ?thesis
    unfolding list_all_iff using h2 build_graph_invariant [OF h1 h2] by blast
qed

section \<open>The round-trip scenario\<close>

lemma example_kmers: "build_kmer_dict [''ACGT'', ''CGTA''] 3 = [(''ACG'', 1), (''CGT'', 2), (''GTA'', 1)]"
  by code_simp

lemma example_build: "build_graph [(''ACG'', 1), (''CGT'', 2), (''GTA'', 1)] = example_graph"
  by code_simp

lemma example_starts: "get_starting_nodes example_graph = [''AC'']"
  by code_simp

lemma example_sinks: "get_sink_nodes example_graph = [''TA'']"
  by code_simp

lemma example_contigs: "get_contigs example_graph [''AC''] [''TA''] = Inr [(''ACGTA'', 5)]"
  by code_simp

lemma example_paths: "all_simple_paths example_graph ''AC'' ''TA'' = Inr [[''AC'', ''CG'', ''GT'', ''TA'']]"
  by code_simp

lemma example_scan: "scan_nodes pick example_graph (nodes example_graph) (False, None) = Inr None"
  by code_simp

lemma example_entry: "entry_tip_scan example_graph [''AC''] = Inr None"
  by code_simp

lemma example_out: "out_tip_scan example_graph [''TA''] = Inr None"
  by code_simp

lemma example_bubbles: "simplify_bubbles pick example_graph state = Some (Inr (example_graph, state))"
  by (subst simplify_bubbles.simps) (simp add: example_scan)

lemma example_entry_tips: "solve_entry_tips example_graph [''AC''] state = Some (Inr (example_graph, state))"
  by (subst solve_entry_tips.simps) (simp add: example_entry)

lemma example_out_tips: "solve_out_tips example_graph [''TA''] state = Some (Inr (example_graph, state))"
  by (subst solve_out_tips.simps) (simp add: example_out)

text \<open>
  C9. For the reads \<open>ACGT\<close> and \<open>CGTA\<close> with \<open>k = 3\<close>: the k-mer counts are
  \<open>ACG: 1, CGT: 2, GTA: 1\<close>; the built graph has the nodes \<open>AC, CG, GT, TA\<close> and the
  edges \<open>AC \<rightarrow> CG\<close> of weight 1, \<open>CG \<rightarrow> GT\<close> of weight 2 and \<open>GT \<rightarrow> TA\<close> of weight 1; its
  only starting node is \<open>AC\<close> and its only sink is \<open>TA\<close>; the only simple path between
  them is \<open>AC, CG, GT, TA\<close>; contig extraction returns the single contig \<open>ACGTA\<close> of
  length 5, and so does the whole of \<open>main\<close>, whose simplification passes leave this
  graph as it is.
\<close>

theorem round_trip_scenario:
  "build_kmer_dict [''ACGT'', ''CGTA''] 3 = [(''ACG'', 1), (''CGT'', 2), (''GTA'', 1)]
   \<and> build_graph (build_kmer_dict [''ACGT'', ''CGTA''] 3)
       = \<lparr>nodes = [''AC'', ''CG'', ''GT'', ''TA''],
          edges = [((''AC'', ''CG''), 1), ((''CG'', ''GT''), 2), ((''GT'', ''TA''), 1)]\<rparr>
   \<and> get_starting_nodes (build_graph (build_kmer_dict [''ACGT'', ''CGTA''] 3)) = [''AC'']
   \<and> get_sink_nodes (build_graph (build_kmer_dict [''ACGT'', ''CGTA''] 3)) = [''TA'']
   \<and> all_simple_paths (build_graph (build_kmer_dict [''ACGT'', ''CGTA''] 3)) ''AC'' ''TA''
       = Inr [[''AC'', ''CG'', ''GT'', ''TA'']]
   \<and> get_contigs (build_graph (build_kmer_dict [''ACGT'', ''CGTA''] 3)) [''AC''] [''TA'']
       = Inr [(''ACGTA'', 5)]
   \<and> main pick [''ACGT'', ''CGTA''] 3 state = Some (Inr [(''ACGTA'', 5)])"
proof -
  have g: "build_graph (build_kmer_dict [''ACGT'', ''CGTA''] 3) = example_graph"
    by (simp only: example_kmers example_build)
  have m: "main pick [''ACGT'', ''CGTA''] 3 state = Some (Inr [(''ACGTA'', 5)])"
    unfolding main_def
    by (simp add: g example_bubbles example_starts example_sinks
          example_entry_tips example_out_tips example_contigs)
  show ?thesis
    unfolding g
    using example_kmers example_starts example_sinks example_paths example_contigs m
    by (simp add: example_graph_def)
qed

text \<open>The scenario with a fixed choice of common ancestor and a fixed generator.\<close>

theorem round_trip_scenario_witness:
  "main hd [''ACGT'', ''CGTA''] 3 (\<lambda>_. 0) = Some (Inr [(''ACGTA'', 5)])"
  using round_trip_scenario [of hd "\<lambda>_. 0"] by blast

section \<open>Path selection\<close>

lemma sum_list_squares_nonneg: "0 \<le> (\<Sum>x\<leftarrow>xs. (x - c) * (x - c :: rat))"
  by (induction xs) simp_all

lemma sum_list_squares_zero_iff:
  "(\<Sum>x\<leftarrow>xs. (x - c) * (x - c :: rat)) = 0 \<longleftrightarrow> (\<forall>x \<in> set xs. x = c)"
proof (induction xs)
  case Nil
  show ?case by simp
next
  case (Cons a xs)
  have "0 \<le> (a - c) * (a - c)" by simp
  moreover have "0 \<le> (\<Sum>x\<leftarrow>xs. (x - c) * (x - c))" by (rule sum_list_squares_nonneg)
  ultimately have "(a - c) * (a - c) + (\<Sum>x\<leftarrow>xs. (x - c) * (x - c)) = 0
      \<longleftrightarrow> (a - c) * (a - c) = 0 \<and> (\<Sum>x\<leftarrow>xs. (x - c) * (x - c)) = 0"
    by (rule add_nonneg_eq_0_iff)
  then show ?case using Cons.IH by simp
qed

lemma sum_list_all_same: "\<forall>x \<in> set xs. x = (c::rat) \<Longrightarrow> sum_list xs = of_nat (length xs) * c"
  by (induction xs) (simp_all add: algebra_simps)

lemma mean_all_equal:
  assumes "all_equal xs" "x \<in> set xs"
  shows "sum_list xs / of_nat (length xs) = (x::rat)"
proof -
  have "\<forall>y \<in> set xs. y = x" using assms unfolding all_equal_def by blast
  then have "sum_list xs = of_nat (length xs) * x" by (rule sum_list_all_same)
  moreover have "length xs \<noteq> 0" using assms(2) by auto
  ultimately show ?thesis by simp
qed

lemma variance_cases:
  assumes "2 \<le> length xs"
  shows "\<exists>v. variance xs = Inr v \<and> 0 \<le> v \<and> (v = 0 \<longleftrightarrow> all_equal xs)"
proof -
  define c where "c = sum_list xs / of_nat (length xs)"
  define v where "v = (\<Sum>x\<leftarrow>xs. (x - c) * (x - c)) / of_nat (length xs - 1)"
  have n: "0 < (of_nat (length xs - 1) :: rat)" using assms by simp
  have var: "variance xs = Inr v"
    using assms by (simp add: variance_def Let_def v_def c_def)
  have nonneg: "0 \<le> v"
    unfolding v_def using sum_list_squares_nonneg [of c xs] n by simp
  have "v = 0 \<longleftrightarrow> (\<Sum>x\<leftarrow>xs. (x - c) * (x - c)) = 0"
    unfolding v_def using n by simp
  also have "\<dots> \<longleftrightarrow> (\<forall>x \<in> set xs. x = c)" by (rule sum_list_squares_zero_iff)
  also have "\<dots> \<longleftrightarrow> all_equal xs"
  proof
    assume "\<forall>x \<in> set xs. x = c"
    then show "all_equal xs" unfolding all_equal_def by metis
  next
    assume a: "all_equal xs"
    show "\<forall>x \<in> set xs. x = c"
      unfolding c_def using mean_all_equal [OF a] by simp
  qed
  finally show ?thesis using var nonneg by blast
qed

lemma variance_short: "length xs < 2 \<Longrightarrow> variance xs = Inl StatisticsError"
  by (simp add: variance_def)

lemma all_equal_of_int: "all_equal (map (of_int :: int \<Rightarrow> rat) xs) \<longleftrightarrow> all_equal xs"
  unfolding all_equal_def by auto

lemma foldl_max_props:
  "(x::'b::linorder) \<le> foldl max x xs \<and> (\<forall>y \<in> set xs. y \<le> foldl max x xs)
     \<and> foldl max x xs \<in> set (x # xs)"
proof (induction xs arbitrary: x)
  case Nil
  show ?case by simp
next
  case (Cons a xs)
  from Cons.IH [of "max x a"] show ?case
    by (auto simp: max_def split: if_splits)
qed

lemma py_max_props:
  assumes "xs \<noteq> []"
  shows "\<exists>m. py_max xs = Inr m \<and> m \<in> set xs \<and> (\<forall>y \<in> set xs. y \<le> m)"
proof (cases xs)
  case Nil
  with assms show ?thesis by simp
next
  case (Cons x rest)
  then show ?thesis
    using foldl_max_props [of x rest] by (auto simp: py_max_def)
qed

lemma py_index_props:
  assumes "m \<in> set xs"
  shows "\<exists>i. py_index xs m = Inr i \<and> i < length xs \<and> xs ! i = m \<and> (\<forall>j < i. xs ! j \<noteq> m)"
proof -
  let ?i = "length (takeWhile (\<lambda>y. y \<noteq> m) xs)"
  have lt: "?i < length xs"
    using assms by (induction xs) auto
  have at: "xs ! ?i = m"
    using nth_length_takeWhile [OF lt] by simp
  have before: "\<forall>j < ?i. xs ! j \<noteq> m"
  proof (intro allI impI)
    fix j assume j: "j < ?i"
    then have "takeWhile (\<lambda>y. y \<noteq> m) xs ! j \<in> set (takeWhile (\<lambda>y. y \<noteq> m) xs)" by simp
    then have "takeWhile (\<lambda>y. y \<noteq> m) xs ! j \<noteq> m" by (auto dest: set_takeWhileD)
    then show "xs ! j \<noteq> m" using takeWhile_nth [OF j] by simp
  qed
  show ?thesis using assms lt at before by (auto simp: py_index_def)
qed

lemma first_maximum:
  assumes "xs \<noteq> []"
  shows "\<exists>m i. py_max xs = Inr m \<and> py_index xs m = Inr i \<and> i < length xs
     \<and> (\<forall>j < length xs. xs ! j \<le> xs ! i) \<and> (\<forall>j < i. xs ! j < xs ! (i::nat))"
proof -
  obtain m where m: "py_max xs = Inr m" "m \<in> set xs" "\<forall>y \<in> set xs. y \<le> m"
    using py_max_props [OF assms] by blast
  obtain i where i: "py_index xs m = Inr i" "i < length xs" "xs ! i = m" "\<forall>j < i. xs ! j \<noteq> m"
    using py_index_props [OF m(2)] by blast
  have le: "\<forall>j < length xs. xs ! j \<le> xs ! i" using m(3) i(3) by simp
  have "\<forall>j < i. xs ! j < xs ! i"
  proof (intro allI impI)
    fix j assume "j < i"
    then have "xs ! j \<noteq> m" "xs ! j \<le> m" using i(2,4) m(3) by auto
    then show "xs ! j < xs ! i" using i(3) by simp
  qed
  then show ?thesis using m(1) i(1,2) le by blast
qed

lemma randint_props:
  assumes "a \<le> b"
  shows "\<exists>r. randint state a b = Inr (r, \<lambda>i. state (Suc i)) \<and> a \<le> r \<and> r \<le> b"
proof -
  have "0 < b - a + 1" using assms by simp
  then have "0 \<le> int (state 0) mod (b - a + 1)" "int (state 0) mod (b - a + 1) < b - a + 1"
    by (rule pos_mod_sign, rule pos_mod_bound)
  then have "a \<le> a + int (state 0) mod (b - a + 1)" "a + int (state 0) mod (b - a + 1) \<le> b"
    by linarith+
  then show ?thesis using assms by (simp add: randint_def)
qed

lemma paths_to_remove_enumerate:
  "map snd (filter (\<lambda>(i, path). i \<noteq> b) (enumerate k xs))
     = (if b < k then xs else take (b - k) xs @ drop (Suc (b - k)) xs)"
proof (induction xs arbitrary: k)
  case Nil
  show ?case by simp
next
  case (Cons x xs)
  show ?case
  proof (cases "b < Suc k")
    case True
    then show ?thesis using Cons.IH [of "Suc k"] by (auto simp: less_Suc_eq)
  next
    case False
    then have "b - k = Suc (b - Suc k)" by simp
    then show ?thesis using False Cons.IH [of "Suc k"] by simp
  qed
qed

lemma paths_to_remove_eq: "paths_to_remove path_list b = take b path_list @ drop (Suc b) path_list"
  by (simp add: paths_to_remove_def paths_to_remove_enumerate)

lemma best_path_index_cases:
  assumes len: "length path_length = length ws" and two: "2 \<le> length ws"
  shows "\<exists>b state'. best_path_index path_length ws state = Inr (b, state') \<and> b < length ws
      \<and> (\<not> all_equal ws \<longrightarrow>
            state' = state \<and> (\<forall>j < length ws. ws ! j \<le> ws ! b) \<and> (\<forall>j < b. ws ! j < ws ! b))
      \<and> (all_equal ws \<and> \<not> all_equal path_length \<longrightarrow>
            state' = state \<and> (\<forall>j < length ws. path_length ! j \<le> path_length ! b)
            \<and> (\<forall>j < b. path_length ! j < path_length ! b))
      \<and> (all_equal ws \<and> all_equal path_length \<longrightarrow> state' = (\<lambda>i. state (Suc i)))"
proof -
  obtain vw where vw: "variance ws = Inr vw" "0 \<le> vw" "vw = 0 \<longleftrightarrow> all_equal ws"
    using variance_cases [OF two] by blast
  have two': "2 \<le> length (map (of_int :: int \<Rightarrow> rat) path_length)" using len two by simp
  obtain vl where vl: "variance (map of_int path_length) = Inr vl" "0 \<le> vl"
      "vl = 0 \<longleftrightarrow> all_equal path_length"
    using variance_cases [OF two'] all_equal_of_int [of path_length] by auto
  have ne: "ws \<noteq> []" "path_length \<noteq> []" using len two by force+
  show ?thesis
  proof (cases "all_equal ws")
    case False
    then have pos: "0 < vw" using vw by auto
    obtain m i where mi: "py_max ws = Inr m" "py_index ws m = Inr i" "i < length ws"
        "\<forall>j < length ws. ws ! j \<le> ws ! i" "\<forall>j < i. ws ! j < ws ! i"
      using first_maximum [OF ne(1)] by blast
    have "best_path_index path_length ws state = Inr (i, state)"
      by (simp add: best_path_index_def vw(1) pos mi(1,2))
    then show ?thesis using False mi(3,4,5) by simp
  next
    case eqw: True
    then have zw: "\<not> 0 < vw" using vw by simp
    show ?thesis
    proof (cases "all_equal path_length")
      case False
      then have pos: "0 < vl" using vl by auto
      obtain m i where mi: "py_max path_length = Inr m" "py_index path_length m = Inr i"
          "i < length path_length" "\<forall>j < length path_length. path_length ! j \<le> path_length ! i"
          "\<forall>j < i. path_length ! j < path_length ! i"
        using first_maximum [OF ne(2)] by blast
      have "best_path_index path_length ws state = Inr (i, state)"
        by (simp add: best_path_index_def vw(1) zw vl(1) pos mi(1,2))
      then show ?thesis using False eqw mi(3,4,5) len by simp
    next
      case True
      then have zl: "vl = 0" using vl by simp
      have "(0::int) \<le> int (length path_length) - 1" using len two by linarith
      then obtain r where r: "randint state 0 (int (length path_length) - 1)
            = Inr (r, \<lambda>i. state (Suc i))" "0 \<le> r" "r \<le> int (length path_length) - 1"
        using randint_props by blast
      have "best_path_index path_length ws state = Inr (nat r, \<lambda>i. state (Suc i))"
        by (simp add: best_path_index_def vw(1) zw vl(1) zl r(1))
      moreover have "nat r < length ws" using r(2,3) len by linarith
      ultimately show ?thesis using True eqw by simp
    qed
  qed
qed

lemma select_best_path_unfold:
  assumes "best_path_index path_length ws state = Inr (b, state')"
  shows "select_best_path g path_list path_length ws e s state
     = (case remove_paths g (take b path_list @ drop (Suc b) path_list) e s of
          Inl err \<Rightarrow> Inl err | Inr g' \<Rightarrow> Inr (g', state'))"
  by (simp add: select_best_path_def assms paths_to_remove_eq)

text \<open>
  C1, as amended. For every call of \<^verbatim>\<open>select_best_path\<close> with at least two candidate
  paths (and a length and an average weight for each): exactly one candidate, at an
  index \<open>b\<close>, is not passed to removal, so the survivor is one of the input candidates.
  If the average weights are not all equal, the survivor has the maximum average weight
  and is the first candidate with it (no earlier candidate reaches it; a later one may
  equal it). Else, if the lengths are not all equal, the survivor has the maximum
  length and is the first candidate with it.
\<close>

theorem select_best_path_keeps:
  assumes "length path_list = length ws" and "length path_length = length ws"
    and "2 \<le> length ws"
  shows "\<exists>b state'. b < length path_list
      \<and> select_best_path g path_list path_length ws e s state
          = (case remove_paths g (take b path_list @ drop (Suc b) path_list) e s of
               Inl err \<Rightarrow> Inl err | Inr g' \<Rightarrow> Inr (g', state'))
      \<and> (\<not> all_equal ws \<longrightarrow>
            (\<forall>j < length ws. ws ! j \<le> ws ! b) \<and> (\<forall>j < b. ws ! j < ws ! b))
      \<and> (all_equal ws \<and> \<not> all_equal path_length \<longrightarrow>
            (\<forall>j < length ws. path_length ! j \<le> path_length ! b)
            \<and> (\<forall>j < b. path_length ! j < path_length ! b))"
proof -
  obtain b state' where b: "best_path_index path_length ws state = Inr (b, state')"
      "b < length ws"
      "\<not> all_equal ws \<longrightarrow>
            state' = state \<and> (\<forall>j < length ws. ws ! j \<le> ws ! b) \<and> (\<forall>j < b. ws ! j < ws ! b)"
      "all_equal ws \<and> \<not> all_equal path_length \<longrightarrow>
            state' = state \<and> (\<forall>j < length ws. path_length ! j \<le> path_length ! b)
            \<and> (\<forall>j < b. path_length ! j < path_length ! b)"
    using best_path_index_cases [OF assms(2,3), of state] by blast
  show ?thesis
    using select_best_path_unfold [OF b(1), of g path_list e s] b(2,3,4) assms(1) by auto
qed

lemma delete_nodes_Nil: "delete_nodes g [] = g"
  by (simp add: delete_nodes_def)

lemma delete_nodes_Cons: "delete_nodes (delete_node g n) ns = delete_nodes g (n # ns)"
  by (auto simp: delete_nodes_def delete_node_def intro: filter_cong)

lemma delete_nodes_append: "delete_nodes (delete_nodes g xs) ys = delete_nodes g (xs @ ys)"
  by (auto simp: delete_nodes_def intro: filter_cong)

lemma nodes_delete_nodes: "set (nodes (delete_nodes g ns)) = set (nodes g) - set ns"
  by (auto simp: delete_nodes_def)

lemma remove_nodes_from_eq: "remove_nodes_from g ns = delete_nodes g ns"
  unfolding remove_nodes_from_def
proof (induction ns arbitrary: g)
  case Nil
  show ?case by (simp add: delete_nodes_Nil)
next
  case (Cons n ns)
  show ?case by (simp add: Cons.IH delete_nodes_Cons)
qed

lemma remove_each_ok:
  assumes "distinct ns" "set ns \<subseteq> set (nodes g)"
  shows "remove_each g ns = Inr (delete_nodes g ns)"
  using assms
proof (induction ns arbitrary: g)
  case Nil
  show ?case by (simp add: delete_nodes_Nil)
next
  case (Cons n ns)
  have "set ns \<subseteq> set (nodes (delete_node g n))"
    using Cons.prems by (auto simp: delete_node_def)
  then have "remove_each (delete_node g n) ns = Inr (delete_nodes (delete_node g n) ns)"
    using Cons.IH Cons.prems(1) by simp
  then show ?case using Cons.prems(2) by (simp add: remove_node_def delete_nodes_Cons)
qed



lemma remove_paths_ok:
  assumes "(e \<and> s) \<or> (distinct (concat (map (removed_part e s) ps))
                       \<and> set (concat (map (removed_part e s) ps)) \<subseteq> set (nodes g))"
  shows "remove_paths g ps e s = Inr (delete_nodes g (concat (map (removed_part e s) ps)))"
  using assms
proof (induction ps arbitrary: g)
  case Nil
  show ?case by (simp add: delete_nodes_Nil)
next
  case (Cons p ps)
  let ?g1 = "delete_nodes g (removed_part e s p)"
  have first: "(if e \<and> s then Inr (remove_nodes_from g p)
        else if e then remove_each g (butlast p)
        else if s then remove_each g (tl p)
        else remove_each g (butlast (tl p))) = Inr ?g1"
  proof (cases "e \<and> s")
    case True
    then show ?thesis by (simp add: removed_part_def remove_nodes_from_eq)
  next
    case False
    with Cons.prems have "distinct (removed_part e s p)"
        "set (removed_part e s p) \<subseteq> set (nodes g)" by auto
    then have "remove_each g (removed_part e s p) = Inr ?g1" by (rule remove_each_ok)
    then show ?thesis using False by (auto simp: removed_part_def)
  qed
  have rest: "(e \<and> s) \<or> (distinct (concat (map (removed_part e s) ps))
                       \<and> set (concat (map (removed_part e s) ps)) \<subseteq> set (nodes ?g1))"
    using Cons.prems by (auto simp: nodes_delete_nodes)
  have "remove_paths ?g1 ps e s = Inr (delete_nodes ?g1 (concat (map (removed_part e s) ps)))"
    using Cons.IH [OF rest] .
  then show ?case using first by (simp add: delete_nodes_append)
qed

text \<open>
  C3, as amended. With fewer than two candidates (none, or a single one)
  \<^verbatim>\<open>select_best_path\<close> signals \<^verbatim>\<open>StatisticsError\<close>. With at least two it chooses a
  survivor, and it returns the graph without the removed parts of the other paths
  whenever both deletion flags are set, or these parts are nodes of the graph and no
  node occurs twice among them.
\<close>

theorem select_best_path_outcome:
  assumes "length path_list = length ws" and "length path_length = length ws"
  shows "(length ws < 2 \<longrightarrow>
            select_best_path g path_list path_length ws e s state = Inl StatisticsError)
       \<and> (2 \<le> length ws \<longrightarrow>
            (\<exists>b state'. best_path_index path_length ws state = Inr (b, state')
               \<and> b < length path_list
               \<and> (let removed = concat (map (removed_part e s) (paths_to_remove path_list b))
                  in (e \<and> s) \<or> (distinct removed \<and> set removed \<subseteq> set (nodes g)) \<longrightarrow>
                     select_best_path g path_list path_length ws e s state
                       = Inr (delete_nodes g removed, state'))))"
proof (intro conjI impI)
  assume "length ws < 2"
  then show "select_best_path g path_list path_length ws e s state = Inl StatisticsError"
    by (simp add: select_best_path_def best_path_index_def variance_short)
next
  assume two: "2 \<le> length ws"
  obtain b state' where b: "best_path_index path_length ws state = Inr (b, state')"
      "b < length ws"
    using best_path_index_cases [OF assms(2) two, of state] by blast
  have "(e \<and> s) \<or> (distinct (concat (map (removed_part e s) (paths_to_remove path_list b)))
          \<and> set (concat (map (removed_part e s) (paths_to_remove path_list b))) \<subseteq> set (nodes g))
      \<Longrightarrow> select_best_path g path_list path_length ws e s state
            = Inr (delete_nodes g (concat (map (removed_part e s) (paths_to_remove path_list b))), state')"
    by (simp add: select_best_path_def b(1) remove_paths_ok)
  then show "\<exists>b state'. best_path_index path_length ws state = Inr (b, state')
               \<and> b < length path_list
               \<and> (let removed = concat (map (removed_part e s) (paths_to_remove path_list b))
                  in (e \<and> s) \<or> (distinct removed \<and> set removed \<subseteq> set (nodes g)) \<longrightarrow>
                     select_best_path g path_list path_length ws e s state
                       = Inr (delete_nodes g removed, state'))"
    using b assms(1) unfolding Let_def by metis
qed







text \<open>The theorem at the bubble with three branches.\<close>

theorem select_best_path_keeps_witness:
  "length [[1, 2, 5], [1, 3, 5], [1, 4, 5::nat]] = length [5, 5, 3::rat]
   \<and> length [3, 3, 3::int] = length [5, 5, 3::rat]
   \<and> 2 \<le> length [5, 5, 3::rat]
   \<and> (\<exists>b state'. b < length [[1, 2, 5], [1, 3, 5], [1, 4, 5::nat]]
      \<and> select_best_path bubble3 [[1, 2, 5], [1, 3, 5], [1, 4, 5]] [3, 3, 3] [5, 5, 3]
            False False (\<lambda>_. 0)
          = (case remove_paths bubble3
                    (take b [[1, 2, 5], [1, 3, 5], [1, 4, 5]]
                     @ drop (Suc b) [[1, 2, 5], [1, 3, 5], [1, 4, 5]]) False False of
               Inl err \<Rightarrow> Inl err | Inr g' \<Rightarrow> Inr (g', state'))
      \<and> (\<not> all_equal [5, 5, 3::rat] \<longrightarrow>
            (\<forall>j < length [5, 5, 3::rat]. [5, 5, 3::rat] ! j \<le> [5, 5, 3] ! b)
            \<and> (\<forall>j < b. [5, 5, 3::rat] ! j < [5, 5, 3] ! b))
      \<and> (all_equal [5, 5, 3::rat] \<and> \<not> all_equal [3, 3, 3::int] \<longrightarrow>
            (\<forall>j < length [5, 5, 3::rat]. [3, 3, 3::int] ! j \<le> [3, 3, 3] ! b)
            \<and> (\<forall>j < b. [3, 3, 3::int] ! j < [3, 3, 3] ! b)))"
proof -
  have h1: "length [[1, 2, 5], [1, 3, 5], [1, 4, 5::nat]] = length [5, 5, 3::rat]" by simp
  have h2: "length [3, 3, 3::int] = length [5, 5, 3::rat]" by simp
  have h3: "2 \<le> length [5, 5, 3::rat]" by simp
  show ?thesis
    using h1 h2 h3 select_best_path_keeps [OF h1 h2 h3, of bubble3 False False "\<lambda>_. 0"]
    by blast
qed

text \<open>
  The claim as stated asks for a strictly maximum average weight. In the bubble with
  three branches the weights 5, 5, 3 are not all equal, the first path is kept, and the
  second path, which is removed, has the same average weight as the survivor.
\<close>

theorem strict_maximum_counterexample:
  "select_best_path bubble3 [[1, 2, 5], [1, 3, 5], [1, 4, 5]] [3, 3, 3] [5, 5, 3]
        False False (\<lambda>_. 0)
     = Inr (\<lparr>nodes = [1, 2, 5], edges = [((1, 2), 5), ((2, 5), 5)]\<rparr>, \<lambda>_. 0)
   \<and> \<not> all_equal [5, 5, 3::rat]
   \<and> \<not> ([5, 5, 3::rat] ! 1 < [5, 5, 3] ! 0)"
  by (simp add: select_best_path_def best_path_index_def variance_def py_max_def py_index_def
     paths_to_remove_def enumerate_eq_zip remove_node_def delete_node_def bubble3_def upt_rec
     all_equal_def)



text \<open>The theorem at the bubble with three branches.\<close>

theorem select_best_path_outcome_witness:
  "length [[1, 2, 5], [1, 3, 5], [1, 4, 5::nat]] = length [5, 5, 3::rat]
   \<and> length [3, 3, 3::int] = length [5, 5, 3::rat]
   \<and> 2 \<le> length [5, 5, 3::rat]
   \<and> distinct (concat (map (removed_part False False)
                            (paths_to_remove [[1, 2, 5], [1, 3, 5], [1, 4, 5::nat]] 0)))
   \<and> set (concat (map (removed_part False False)
                       (paths_to_remove [[1, 2, 5], [1, 3, 5], [1, 4, 5::nat]] 0)))
        \<subseteq> set (nodes bubble3)
   \<and> select_best_path bubble3 [[1, 2, 5], [1, 3, 5], [1, 4, 5]] [3, 3, 3] [5, 5, 3]
            False False (\<lambda>_. 0)
       = Inr (delete_nodes bubble3 [3, 4], \<lambda>_. 0)"
proof -
  have h1: "length [[1, 2, 5], [1, 3, 5], [1, 4, 5::nat]] = length [5, 5, 3::rat]" by simp
  have h2: "length [3, 3, 3::int] = length [5, 5, 3::rat]" by simp
  have h3: "2 \<le> length [5, 5, 3::rat]" by simp
  have r: "concat (map (removed_part False False)
                       (paths_to_remove [[1, 2, 5], [1, 3, 5], [1, 4, 5::nat]] 0)) = [3, 4]"
    by (simp add: paths_to_remove_eq removed_part_def)
  have b: "best_path_index [3, 3, 3] [5, 5, 3] (\<lambda>_. 0) = Inr (0, \<lambda>_. 0)"
    by (simp add: best_path_index_def variance_def py_max_def py_index_def)
  have d: "distinct (concat (map (removed_part False False)
                       (paths_to_remove [[1, 2, 5], [1, 3, 5], [1, 4, 5::nat]] 0)))"
    unfolding r by simp
  have n: "set (concat (map (removed_part False False)
                       (paths_to_remove [[1, 2, 5], [1, 3, 5], [1, 4, 5::nat]] 0)))
        \<subseteq> set (nodes bubble3)"
    unfolding r by (simp add: bubble3_def)
  from select_best_path_outcome [OF h1 h2, of bubble3 False False "\<lambda>_. 0"] h3
  obtain b' state' where o:
      "best_path_index [3, 3, 3] [5, 5, 3] (\<lambda>_. 0) = Inr (b', state')"
      "let removed = concat (map (removed_part False False)
                       (paths_to_remove [[1, 2, 5], [1, 3, 5], [1, 4, 5::nat]] b'))
       in (False \<and> False) \<or> (distinct removed \<and> set removed \<subseteq> set (nodes bubble3)) \<longrightarrow>
          select_best_path bubble3 [[1, 2, 5], [1, 3, 5], [1, 4, 5]] [3, 3, 3] [5, 5, 3]
            False False (\<lambda>_. 0) = Inr (delete_nodes bubble3 removed, state')"
    by blast
  from o(1) b have eq: "b' = 0" "state' = (\<lambda>_. 0)" by simp_all
  have "select_best_path bubble3 [[1, 2, 5], [1, 3, 5], [1, 4, 5]] [3, 3, 3] [5, 5, 3]
            False False (\<lambda>_. 0)
      = Inr (delete_nodes bubble3 (concat (map (removed_part False False)
                       (paths_to_remove [[1, 2, 5], [1, 3, 5], [1, 4, 5::nat]] 0))), \<lambda>_. 0)"
    using o(2) d n unfolding eq Let_def by blast
  then have "select_best_path bubble3 [[1, 2, 5], [1, 3, 5], [1, 4, 5]] [3, 3, 3] [5, 5, 3]
            False False (\<lambda>_. 0) = Inr (delete_nodes bubble3 [3, 4], \<lambda>_. 0)"
    unfolding r .
  then show ?thesis using h1 h2 h3 d n by blast
qed

text \<open>
  The claim as stated promises success for every non-empty candidate list; a single
  candidate makes \<^verbatim>\<open>statistics.stdev\<close> raise.
\<close>

theorem single_candidate_counterexample:
  "select_best_path \<lparr>nodes = [1, 2::nat], edges = [((1, 2), 5)]\<rparr> [[1, 2]] [2] [5]
       False False (\<lambda>_. 0) = Inl StatisticsError"
  by (simp add: select_best_path_def best_path_index_def variance_def)

section \<open>Entry tips\<close>













section \<open>Bubbles: a second run changes nothing\<close>

text \<open>
  Whether two nodes have a common ancestor does not depend on the choice of the first
  one, so a scan that finds no bubble finds none under any choice.
\<close>

lemma lca_none_any_pick:
  assumes "lowest_common_ancestor pick g v w = Inr None"
  shows "lowest_common_ancestor pick' g v w = Inr None"
  using assms by (auto simp: lowest_common_ancestor_def Let_def split: if_splits)

lemma scan_j_bubble_stays:
  assumes "scan_j pick g ps i js (True, a) = Inr st"
  shows "fst st"
  using assms
proof (induction js arbitrary: a)
  case Nil
  then show ?case by auto
next
  case (Cons j js)
  then show ?case by (auto split: sum.splits option.splits)
qed

lemma scan_i_bubble_stays:
  assumes "scan_i pick g ps is (True, a) = Inr st"
  shows "fst st"
  using assms
proof (induction "is" arbitrary: a)
  case Nil
  then show ?case by auto
next
  case (Cons i "is")
  from Cons.prems obtain st1 where st1:
      "scan_j pick g ps i [Suc i ..< length ps] (True, a) = Inr st1"
      "scan_i pick g ps is st1 = Inr st"
    by (auto split: sum.splits)
  from scan_j_bubble_stays [OF st1(1)] obtain a1 where "st1 = (True, a1)" by (cases st1) auto
  with st1(2) Cons.IH show ?case by simp
qed

lemma scan_j_any_pick:
  assumes "scan_j pick g ps i js (False, a) = Inr (False, a')"
  shows "scan_j pick' g ps i js (False, a) = Inr (False, a')"
  using assms
proof (induction js arbitrary: a)
  case Nil
  then show ?case by simp
next
  case (Cons j js)
  from Cons.prems have none: "lowest_common_ancestor pick g (ps ! i) (ps ! j) = Inr None"
    by (auto split: sum.splits option.splits)
  with Cons.prems have "scan_j pick g ps i js (False, None) = Inr (False, a')" by simp
  then have "scan_j pick' g ps i js (False, None) = Inr (False, a')" by (rule Cons.IH)
  then show ?case using lca_none_any_pick [OF none, of pick'] by simp
qed

lemma scan_i_any_pick:
  assumes "scan_i pick g ps is (False, a) = Inr (False, a')"
  shows "scan_i pick' g ps is (False, a) = Inr (False, a')"
  using assms
proof (induction "is" arbitrary: a)
  case Nil
  then show ?case by simp
next
  case (Cons i "is")
  from Cons.prems obtain st1 where st1:
      "scan_j pick g ps i [Suc i ..< length ps] (False, a) = Inr st1"
      "scan_i pick g ps is st1 = Inr (False, a')"
    by (auto split: sum.splits)
  obtain b1 a1 where s: "st1 = (b1, a1)" by (cases st1)
  have "\<not> b1"
  proof
    assume b1
    with st1(2) s have "scan_i pick g ps is (True, a1) = Inr (False, a')" by simp
    then have "fst (False, a')" by (rule scan_i_bubble_stays)
    then show False by simp
  qed
  with s have s': "st1 = (False, a1)" by simp
  have "scan_j pick' g ps i [Suc i ..< length ps] (False, a) = Inr (False, a1)"
    using scan_j_any_pick st1(1) s' by blast
  moreover have "scan_i pick' g ps is (False, a1) = Inr (False, a')"
    using Cons.IH st1(2) s' by blast
  ultimately show ?case by simp
qed

lemma scan_nodes_any_pick:
  assumes "scan_nodes pick g ns (False, a) = Inr None"
  shows "scan_nodes pick' g ns (False, a) = Inr None"
  using assms
proof (induction ns arbitrary: a)
  case Nil
  then show ?case by simp
next
  case (Cons node ns)
  let ?ps = "predecessors g node"
  show ?case
  proof (cases "length ?ps > 1")
    case False
    with Cons.prems have "scan_nodes pick g ns (False, a) = Inr None" by (simp add: Let_def)
    then have "scan_nodes pick' g ns (False, a) = Inr None" by (rule Cons.IH)
    then show ?thesis using False by (simp add: Let_def)
  next
    case True
    with Cons.prems obtain st1 where st1:
        "scan_i pick g ?ps [0 ..< length ?ps] (False, a) = Inr st1"
        "(if fst st1 then Inr (Some (snd st1, node)) else scan_nodes pick g ns st1) = Inr None"
      by (auto simp: Let_def split: sum.splits)
    obtain b1 a1 where s: "st1 = (b1, a1)" by (cases st1)
    have nb: "\<not> b1" using st1(2) s by (auto split: if_splits)
    then have s': "st1 = (False, a1)" using s by simp
    have "scan_i pick' g ?ps [0 ..< length ?ps] (False, a) = Inr (False, a1)"
      using scan_i_any_pick st1(1) s' by blast
    moreover have "scan_nodes pick' g ns (False, a1) = Inr None"
      using Cons.IH st1(2) s' by simp
    ultimately show ?thesis using True by (simp add: Let_def)
  qed
qed

text \<open>
  A graph that \<^verbatim>\<open>simplify_bubbles\<close> returns is one on which its scan finds no bubble:
  by fixpoint induction over the recursive calls.
\<close>

lemma simplify_bubbles_result_scan:
  assumes "simplify_bubbles pick g state = Some r"
  shows "\<forall>g' state'. r = Inr (g', state')
        \<longrightarrow> scan_nodes pick g' (nodes g') (False, None) = Inr None"
proof (rule simplify_bubbles.raw_induct
    [where P = "\<lambda>pick g state r. \<forall>g' state'. r = Inr (g', state')
        \<longrightarrow> scan_nodes pick g' (nodes g') (False, None) = Inr None", OF _ assms],
    goal_cases)
  case (1 f pick graph state r)
  show ?case
  proof (cases "scan_nodes pick graph (nodes graph) (False, None)")
    case (Inl e)
    with 1(2) show ?thesis by auto
  next
    case (Inr found)
    show ?thesis
    proof (cases found)
      case None
      with Inr 1(2) show ?thesis by auto
    next
      case (Some pair)
      obtain ancestor_node node where pair: "pair = (ancestor_node, node)" by (cases pair)
      show ?thesis
      proof (cases "solve_bubble graph ancestor_node node state")
        case (Inl e)
        with Inr Some pair 1(2) show ?thesis by auto
      next
        case solved: (Inr gs)
        obtain graph1 state1 where gs: "gs = (graph1, state1)" by (cases gs)
        from Inr Some pair solved gs 1(2) have "f pick graph1 state1 = Some r"
          by simp
        then show ?thesis by (rule 1(1))
      qed
    qed
  qed
qed

text \<open>
  C5. For every graph on which \<^verbatim>\<open>simplify_bubbles\<close> terminates (returns a graph), a
  second run on the returned graph returns it unchanged: the same nodes, edges and
  weights, in the same order, and the generator is not touched. This holds with the same
  choices as the first run and with any other choices and generator state.
\<close>

theorem simplify_bubbles_idempotent:
  assumes "simplify_bubbles pick graph state = Some (Inr (graph', state'))"
  shows "simplify_bubbles pick graph' state' = Some (Inr (graph', state'))
       \<and> simplify_bubbles pick2 graph' state2 = Some (Inr (graph', state2))"
proof -
  have scan: "scan_nodes pick graph' (nodes graph') (False, None) = Inr None"
    using simplify_bubbles_result_scan [OF assms] by simp
  then have scan2: "scan_nodes pick2 graph' (nodes graph') (False, None) = Inr None"
    by (rule scan_nodes_any_pick)
  have "simplify_bubbles pick graph' state' = Some (Inr (graph', state'))"
    by (subst simplify_bubbles.simps) (simp add: scan)
  moreover have "simplify_bubbles pick2 graph' state2 = Some (Inr (graph', state2))"
    by (subst simplify_bubbles.simps) (simp add: scan2)
  ultimately show ?thesis by simp
qed

lemma bubble3_scan:
  "scan_nodes hd bubble3 (nodes bubble3) (False, None) = Inr (Some (Some 1, 5))"
  by code_simp

lemma bubble3_paths: "all_simple_paths bubble3 1 5 = Inr [[1, 2, 5], [1, 3, 5], [1, 4, 5]]"
  by code_simp

lemma bubble3_weights:
  "sequence_err (map (path_average_weight bubble3) [[1, 2, 5], [1, 3, 5], [1, 4, 5]])
     = Inr [5, 5, 3]"
  by (simp add: path_average_weight_def subgraph_weights_def mean_def bubble3_def)

lemma bubble3_select:
  "select_best_path bubble3 [[1, 2, 5], [1, 3, 5], [1, 4, 5]] [3, 3, 3] [5, 5, 3]
        False False state = Inr (bubble3_simplified, state)"
  by (simp add: select_best_path_def best_path_index_def variance_def py_max_def py_index_def
     paths_to_remove_def enumerate_eq_zip remove_node_def delete_node_def bubble3_def upt_rec
     bubble3_simplified_def)

lemma bubble3_solve:
  "solve_bubble bubble3 (Some 1) 5 state = Inr (bubble3_simplified, state)"
proof -
  have lens: "map (int \<circ> length) [[1, 2, 5], [1, 3, 5], [1, 4, 5::nat]] = [3, 3, 3]"
    by simp
  show ?thesis
    unfolding solve_bubble_def
    by (simp only: bubble3_paths bubble3_weights lens bubble3_select sum.case option.case)
qed

lemma bubble3_simplified_scan:
  "scan_nodes pick bubble3_simplified (nodes bubble3_simplified) (False, None) = Inr None"
  by code_simp

lemma bubble3_run:
  "simplify_bubbles hd bubble3 state = Some (Inr (bubble3_simplified, state))"
  apply (subst simplify_bubbles.simps)
  apply (simp del: One_nat_def add: bubble3_scan bubble3_solve)
  apply (subst simplify_bubbles.simps)
  apply (simp add: bubble3_simplified_scan)
  done

text \<open>
  The theorem at the bubble with three branches, which the first run reduces to its
  first branch.
\<close>

theorem simplify_bubbles_idempotent_witness:
  "simplify_bubbles hd bubble3 (\<lambda>_. 0) = Some (Inr (bubble3_simplified, \<lambda>_. 0))
   \<and> simplify_bubbles hd bubble3_simplified (\<lambda>_. 0) = Some (Inr (bubble3_simplified, \<lambda>_. 0))
   \<and> simplify_bubbles last bubble3_simplified (\<lambda>_. 1) = Some (Inr (bubble3_simplified, \<lambda>_. 1))"
  using bubble3_run [of "\<lambda>_. 0"]
    simplify_bubbles_idempotent [OF bubble3_run [of "\<lambda>_. 0"], of last "\<lambda>_. 1"]
  by blast

section \<open>Bubbles: what a round resolves\<close>

lemma wf_add_edge: "wf_digraph g \<Longrightarrow> wf_digraph (add_edge g u v w)"
  unfolding wf_digraph_def
  using edges_add_edge [of g u v w] nodes_add_edge [of g u v w] by fastforce

lemma wf_build_graph: "wf_digraph (build_graph kmer_dict)"
proof -
  have "wf_digraph g \<Longrightarrow> wf_digraph (foldl (\<lambda>graph (kmer, weight).
      add_edge graph (butlast kmer) (tl kmer) weight) g kmer_dict)" for g :: "string digraph"
    by (induction kmer_dict arbitrary: g) (auto simp: wf_add_edge)
  moreover have "wf_digraph (DiGraph :: string digraph)"
    by (simp add: wf_digraph_def DiGraph_def)
  ultimately show ?thesis unfolding build_graph_def by blast
qed

lemma wf_delete_nodes: "wf_digraph g \<Longrightarrow> wf_digraph (delete_nodes g ns)"
  by (auto simp: wf_digraph_def delete_nodes_def)

lemma predecessors_in_nodes:
  assumes "wf_digraph g" "p \<in> set (predecessors g n)"
  shows "p \<in> set (nodes g)"
  using assms by (auto simp: wf_digraph_def predecessors_def)

lemma lca_none_iff:
  "lowest_common_ancestor pick g v w = Inr None
     \<longleftrightarrow> is_directed_acyclic_graph g \<and> v \<in> set (nodes g) \<and> w \<in> set (nodes g)
         \<and> common_ancestors g v w = []"
  by (auto simp: lowest_common_ancestor_def Let_def)

lemma lca_some:
  assumes "is_directed_acyclic_graph g" "v \<in> set (nodes g)" "w \<in> set (nodes g)"
    and "common_ancestors g v w \<noteq> []"
  shows "\<exists>a. lowest_common_ancestor pick g v w = Inr (Some a)"
  using assms by (simp add: lowest_common_ancestor_def Let_def)

lemma scan_j_none:
  assumes "\<forall>j \<in> set js. lowest_common_ancestor pick g (ps ! i) (ps ! j) = Inr None"
  shows "\<exists>a'. scan_j pick g ps i js (False, a) = Inr (False, a')"
  using assms by (induction js arbitrary: a) simp_all

lemma scan_i_none:
  assumes "\<forall>i \<in> set is. \<forall>j \<in> set [Suc i ..< length ps].
             lowest_common_ancestor pick g (ps ! i) (ps ! j) = Inr None"
  shows "\<exists>a'. scan_i pick g ps is (False, a) = Inr (False, a')"
  using assms
proof (induction "is" arbitrary: a)
  case Nil
  show ?case by simp
next
  case (Cons i "is")
  from Cons.prems have "\<forall>j \<in> set [Suc i ..< length ps].
             lowest_common_ancestor pick g (ps ! i) (ps ! j) = Inr None" by simp
  then obtain a1 where a1: "scan_j pick g ps i [Suc i ..< length ps] (False, a) = Inr (False, a1)"
    using scan_j_none by blast
  from Cons.prems have "\<forall>i \<in> set is. \<forall>j \<in> set [Suc i ..< length ps].
             lowest_common_ancestor pick g (ps ! i) (ps ! j) = Inr None" by simp
  then obtain a' where "scan_i pick g ps is (False, a1) = Inr (False, a')"
    using Cons.IH by blast
  then show ?case using a1 by simp
qed

lemma scan_i_no_bubble:
  assumes "is_directed_acyclic_graph g" "wf_digraph g" "\<not> bubble_at g node"
  shows "\<exists>a'. scan_i pick g (predecessors g node) [0 ..< length (predecessors g node)] (False, a)
            = Inr (False, a')"
proof (rule scan_i_none, intro ballI)
  let ?ps = "predecessors g node"
  fix i j assume "i \<in> set [0 ..< length ?ps]" "j \<in> set [Suc i ..< length ?ps]"
  then have ij: "i < j" "j < length ?ps" by auto
  then have "?ps ! i \<in> set ?ps" "?ps ! j \<in> set ?ps" by simp_all
  then have in_nodes: "?ps ! i \<in> set (nodes g)" "?ps ! j \<in> set (nodes g)"
    using predecessors_in_nodes [OF assms(2)] by blast+
  have "common_ancestors g (?ps ! i) (?ps ! j) = []"
    using assms(3) ij unfolding bubble_at_def by blast
  then show "lowest_common_ancestor pick g (?ps ! i) (?ps ! j) = Inr None"
    using assms(1) in_nodes by (simp add: lca_none_iff)
qed

lemma scan_nodes_no_bubble:
  assumes "wf_digraph g"
    and "is_directed_acyclic_graph g \<or> (\<forall>node \<in> set ns. length (predecessors g node) \<le> 1)"
    and "\<forall>node \<in> set ns. \<not> bubble_at g node"
  shows "scan_nodes pick g ns (False, a) = Inr None"
  using assms(2,3)
proof (induction ns arbitrary: a)
  case Nil
  show ?case by simp
next
  case (Cons node ns)
  have rest: "scan_nodes pick g ns (False, a') = Inr None" for a'
    using Cons.IH Cons.prems by auto
  show ?case
  proof (cases "length (predecessors g node) > 1")
    case False
    then show ?thesis using rest by (simp add: Let_def)
  next
    case True
    then have dag: "is_directed_acyclic_graph g" using Cons.prems(1) by auto
    have "\<not> bubble_at g node" using Cons.prems(2) by simp
    then obtain a' where "scan_i pick g (predecessors g node)
        [0 ..< length (predecessors g node)] (False, a) = Inr (False, a')"
      using scan_i_no_bubble [OF dag assms(1)] by blast
    then show ?thesis using True rest by (simp add: Let_def)
  qed
qed

lemma bubble_at_two:
  assumes "predecessors g node = [p, q]"
  shows "bubble_at g node \<longleftrightarrow> common_ancestors g p q \<noteq> []"
proof
  assume "bubble_at g node"
  then obtain j i where ij: "j < length [p, q]" "i < j"
      "common_ancestors g ([p, q] ! i) ([p, q] ! j) \<noteq> []"
    unfolding bubble_at_def assms by blast
  then have "j = 1" "i = 0" by auto
  with ij(3) show "common_ancestors g p q \<noteq> []" by simp
next
  assume "common_ancestors g p q \<noteq> []"
  then have "(1::nat) < length [p, q] \<and> (0::nat) < 1
      \<and> common_ancestors g ([p, q] ! 0) ([p, q] ! 1) \<noteq> []" by simp
  then show "bubble_at g node" unfolding bubble_at_def assms by blast
qed

lemma scan_i_two:
  assumes "lowest_common_ancestor pick g p q = Inr (Some x)"
  shows "scan_i pick g [p, q] [0 ..< length [p, q]] (False, a) = Inr (True, Some x)"
proof -
  have "[0 ..< length [p, q]] = [0, 1]" by (simp add: upt_rec)
  moreover have "[Suc 0 ..< length [p, q]] = [1]" by (simp add: upt_rec)
  moreover have "[Suc 1 ..< length [p, q]] = []" by simp
  ultimately show ?thesis using assms by simp
qed

lemma scan_nodes_first_bubble:
  assumes "wf_digraph g" "is_directed_acyclic_graph g"
    and "find (bubble_at g) ns = Some node" "predecessors g node = [p, q]"
  shows "\<exists>x. lowest_common_ancestor pick g p q = Inr (Some x)
           \<and> scan_nodes pick g ns (False, a) = Inr (Some (Some x, node))"
  using assms(3)
proof (induction ns arbitrary: a)
  case Nil
  then show ?case by simp
next
  case (Cons n ns)
  show ?case
  proof (cases "bubble_at g n")
    case True
    with Cons.prems have n: "n = node" by simp
    have common: "common_ancestors g p q \<noteq> []"
      using True n bubble_at_two [OF assms(4)] by simp
    have "p \<in> set (predecessors g node)" "q \<in> set (predecessors g node)"
      using assms(4) by simp_all
    then have "p \<in> set (nodes g)" "q \<in> set (nodes g)"
      using predecessors_in_nodes [OF assms(1)] by blast+
    then obtain x where x: "lowest_common_ancestor pick g p q = Inr (Some x)"
      using lca_some [OF assms(2) _ _ common] by blast
    have "scan_nodes pick g (n # ns) (False, a) = Inr (Some (Some x, node))"
      using scan_i_two [OF x, of a] by (simp add: n assms(4) Let_def)
    with x show ?thesis by blast
  next
    case False
    with Cons.prems have f: "find (bubble_at g) ns = Some node" by simp
    obtain x where x: "lowest_common_ancestor pick g p q = Inr (Some x)"
        "\<And>a'. scan_nodes pick g ns (False, a') = Inr (Some (Some x, node))"
      using Cons.IH [OF f] by (metis Inr_inject option.inject)
    show ?thesis
    proof (cases "length (predecessors g n) > 1")
      case short: False
      then show ?thesis using x by (simp add: Let_def)
    next
      case True
      obtain a' where "scan_i pick g (predecessors g n)
          [0 ..< length (predecessors g n)] (False, a) = Inr (False, a')"
        using scan_i_no_bubble [OF assms(2,1) False] by blast
      then show ?thesis using True x by (simp add: Let_def)
    qed
  qed
qed

text \<open>
  C4, as amended. For every graph without a cycle, or in which no node has more than
  one predecessor: if no node has two predecessors with a common ancestor,
  \<^verbatim>\<open>simplify_bubbles\<close> returns the graph unchanged. For every graph without a cycle: if
  the first node, in node order, that has two predecessors with a common ancestor has
  exactly these two predecessors, the round resolves this node with the lowest common
  ancestor of the two, collapsing all simple paths between them through
  \<^verbatim>\<open>select_best_path\<close> with both deletion flags false, and then restarts the scan on
  the resulting graph.
\<close>

theorem simplify_bubbles_rounds:
  assumes "wf_digraph g"
  shows "((is_directed_acyclic_graph g
            \<or> (\<forall>node \<in> set (nodes g). length (predecessors g node) \<le> 1))
          \<and> (\<forall>node \<in> set (nodes g). \<not> bubble_at g node)
          \<longrightarrow> simplify_bubbles pick g state = Some (Inr (g, state)))
       \<and> (is_directed_acyclic_graph g \<and> find (bubble_at g) (nodes g) = Some node
          \<and> predecessors g node = [p, q]
          \<longrightarrow> (\<exists>a. lowest_common_ancestor pick g p q = Inr (Some a)
                \<and> simplify_bubbles pick g state
                    = (case solve_bubble g (Some a) node state of
                         Inl e \<Rightarrow> Some (Inl e)
                       | Inr (g', state') \<Rightarrow> simplify_bubbles pick g' state')
                \<and> solve_bubble g (Some a) node state
                    = (case all_simple_paths g a node of
                         Inl e \<Rightarrow> Inl e
                       | Inr path_list \<Rightarrow>
                           (case sequence_err (map (path_average_weight g) path_list) of
                              Inl e \<Rightarrow> Inl e
                            | Inr weight_avg_list \<Rightarrow>
                                select_best_path g path_list (map (int \<circ> length) path_list)
                                                 weight_avg_list False False state))))"
proof (intro conjI impI)
  assume a: "(is_directed_acyclic_graph g
            \<or> (\<forall>node \<in> set (nodes g). length (predecessors g node) \<le> 1))
          \<and> (\<forall>node \<in> set (nodes g). \<not> bubble_at g node)"
  then have "scan_nodes pick g (nodes g) (False, None) = Inr None"
    using scan_nodes_no_bubble [OF assms] by blast
  then show "simplify_bubbles pick g state = Some (Inr (g, state))"
    by (subst simplify_bubbles.simps) simp
next
  assume a: "is_directed_acyclic_graph g \<and> find (bubble_at g) (nodes g) = Some node
          \<and> predecessors g node = [p, q]"
  then obtain x where x: "lowest_common_ancestor pick g p q = Inr (Some x)"
      "scan_nodes pick g (nodes g) (False, None) = Inr (Some (Some x, node))"
    using scan_nodes_first_bubble [OF assms] by blast
  have "simplify_bubbles pick g state
      = (case solve_bubble g (Some x) node state of
           Inl e \<Rightarrow> Some (Inl e)
         | Inr (g', state') \<Rightarrow> simplify_bubbles pick g' state')"
    by (subst simplify_bubbles.simps) (simp add: x(2))
  moreover have "solve_bubble g (Some x) node state
                    = (case all_simple_paths g x node of
                         Inl e \<Rightarrow> Inl e
                       | Inr path_list \<Rightarrow>
                           (case sequence_err (map (path_average_weight g) path_list) of
                              Inl e \<Rightarrow> Inl e
                            | Inr weight_avg_list \<Rightarrow>
                                select_best_path g path_list (map (int \<circ> length) path_list)
                                                 weight_avg_list False False state))"
    by (simp add: solve_bubble_def)
  ultimately show "\<exists>a. lowest_common_ancestor pick g p q = Inr (Some a)
                \<and> simplify_bubbles pick g state
                    = (case solve_bubble g (Some a) node state of
                         Inl e \<Rightarrow> Some (Inl e)
                       | Inr (g', state') \<Rightarrow> simplify_bubbles pick g' state')
                \<and> solve_bubble g (Some a) node state
                    = (case all_simple_paths g a node of
                         Inl e \<Rightarrow> Inl e
                       | Inr path_list \<Rightarrow>
                           (case sequence_err (map (path_average_weight g) path_list) of
                              Inl e \<Rightarrow> Inl e
                            | Inr weight_avg_list \<Rightarrow>
                                select_best_path g path_list (map (int \<circ> length) path_list)
                                                 weight_avg_list False False state))"
    using x(1) by blast
qed

lemma two_branches_built:
  "build_graph (build_kmer_dict [''GACG'', ''GATCG''] 3) = two_branches"
  by code_simp

lemma three_predecessors_built:
  "build_graph (build_kmer_dict [''GACG'', ''GATCG'', ''GCG''] 3) = three_predecessors"
  by code_simp

lemma loop_and_join_built:
  "build_graph (build_kmer_dict [''AAA'', ''ACG'', ''TCG''] 3) = loop_and_join"
  by code_simp

lemma three_predecessors_first_pair:
  "lowest_common_ancestor hd three_predecessors ''AC'' ''TC'' = Inr (Some ''GA'')"
  by code_simp

lemma three_predecessors_last_pair:
  "lowest_common_ancestor hd three_predecessors ''TC'' ''GC'' = Inr None"
  by code_simp

lemma three_predecessors_scan:
  "scan_nodes hd three_predecessors (nodes three_predecessors) (False, None)
     = Inr (Some (None, ''CG''))"
  by code_simp

lemma three_predecessors_run:
  "simplify_bubbles hd three_predecessors state = Some (Inl NodeNotFound)"
  by (subst simplify_bubbles.simps) (simp add: three_predecessors_scan solve_bubble_def)

lemma loop_and_join_no_bubble:
  "\<not> list_ex (bubble_at loop_and_join) (nodes loop_and_join)"
  by code_simp

lemma loop_and_join_scan:
  "scan_nodes hd loop_and_join (nodes loop_and_join) (False, None) = Inl NetworkXError"
  by code_simp

lemma loop_and_join_run:
  "simplify_bubbles hd loop_and_join state = Some (Inl NetworkXError)"
  by (subst simplify_bubbles.simps) (simp add: loop_and_join_scan)

text \<open>
  The claim as stated fails on both counts. In the graph of the reads \<open>GACG\<close>, \<open>GATCG\<close>
  and \<open>GCG\<close> the first pair found at \<open>CG\<close> is the ancestor \<open>GA\<close> of the predecessors
  \<open>AC\<close> and \<open>TC\<close>, but the loop over \<open>i\<close> goes on, the pair \<open>TC\<close>, \<open>GC\<close> has no common
  ancestor and overwrites the ancestor with \<^verbatim>\<open>None\<close>, and the run raises
  \<^verbatim>\<open>NodeNotFound\<close>. In the graph of the reads \<open>AAA\<close>, \<open>ACG\<close> and \<open>TCG\<close> no node has two
  predecessors with a common ancestor, but the loop on \<open>AA\<close> is a cycle and the run
  raises \<^verbatim>\<open>NetworkXError\<close> instead of returning the graph.
\<close>

theorem simplify_bubbles_counterexample:
  "predecessors three_predecessors ''CG'' = [''AC'', ''TC'', ''GC'']
   \<and> lowest_common_ancestor hd three_predecessors ''AC'' ''TC'' = Inr (Some ''GA'')
   \<and> scan_nodes hd three_predecessors (nodes three_predecessors) (False, None)
       = Inr (Some (None, ''CG''))
   \<and> simplify_bubbles hd (build_graph (build_kmer_dict [''GACG'', ''GATCG'', ''GCG''] 3)) (\<lambda>_. 0)
       = Some (Inl NodeNotFound)
   \<and> \<not> list_ex (bubble_at loop_and_join) (nodes loop_and_join)
   \<and> simplify_bubbles hd (build_graph (build_kmer_dict [''AAA'', ''ACG'', ''TCG''] 3)) (\<lambda>_. 0)
       = Some (Inl NetworkXError)"
proof -
  have "predecessors three_predecessors ''CG'' = [''AC'', ''TC'', ''GC'']" by code_simp
  then show ?thesis
    using three_predecessors_first_pair three_predecessors_scan loop_and_join_no_bubble
      three_predecessors_run [of "\<lambda>_. 0"] loop_and_join_run [of "\<lambda>_. 0"]
    unfolding three_predecessors_built loop_and_join_built by blast
qed

lemma example_graph_facts:
  "wf_digraph example_graph" "is_directed_acyclic_graph example_graph"
  "\<not> list_ex (bubble_at example_graph) (nodes example_graph)"
  by code_simp+

lemma two_branches_facts:
  "wf_digraph two_branches" "is_directed_acyclic_graph two_branches"
  "find (bubble_at two_branches) (nodes two_branches) = Some ''CG''"
  "predecessors two_branches ''CG'' = [''AC'', ''TC'']"
  by code_simp+

lemma two_branches_lca:
  "lowest_common_ancestor hd two_branches ''AC'' ''TC'' = Inr (Some ''GA'')"
  by code_simp

lemma two_branches_paths:
  "all_simple_paths two_branches ''GA'' ''CG''
     = Inr [[''GA'', ''AC'', ''CG''], [''GA'', ''AT'', ''TC'', ''CG'']]"
  by code_simp

lemma two_branches_weights:
  "sequence_err (map (path_average_weight two_branches)
                     [[''GA'', ''AC'', ''CG''], [''GA'', ''AT'', ''TC'', ''CG'']]) = Inr [1, 1]"
  by (simp add: path_average_weight_def subgraph_weights_def mean_def two_branches_def)

lemma two_branches_select:
  "select_best_path two_branches [[''GA'', ''AC'', ''CG''], [''GA'', ''AT'', ''TC'', ''CG'']]
        [3, 4] [1, 1] False False state = Inr (two_branches_simplified, state)"
  by (simp add: select_best_path_def best_path_index_def variance_def py_max_def py_index_def
     paths_to_remove_def enumerate_eq_zip remove_node_def delete_node_def two_branches_def
     upt_rec two_branches_simplified_def)

lemma two_branches_solve:
  "solve_bubble two_branches (Some ''GA'') ''CG'' state = Inr (two_branches_simplified, state)"
proof -
  have lens: "map (int \<circ> length) [[''GA'', ''AC'', ''CG''], [''GA'', ''AT'', ''TC'', ''CG'']]
      = [3, 4]" by simp
  show ?thesis
    unfolding solve_bubble_def
    by (simp only: two_branches_paths two_branches_weights lens two_branches_select
          sum.case option.case)
qed

lemma two_branches_simplified_scan:
  "scan_nodes pick two_branches_simplified (nodes two_branches_simplified) (False, None)
     = Inr None"
  by code_simp

lemma two_branches_simplified_run:
  "simplify_bubbles pick two_branches_simplified state
     = Some (Inr (two_branches_simplified, state))"
  by (subst simplify_bubbles.simps) (simp add: two_branches_simplified_scan)

text \<open>
  The theorem at the graph of the round-trip scenario, which has no bubble, and at the
  bubble with two branches, whose shorter branch is removed.
\<close>

theorem simplify_bubbles_rounds_witness:
  "simplify_bubbles hd example_graph (\<lambda>_. 0) = Some (Inr (example_graph, \<lambda>_. 0))
   \<and> lowest_common_ancestor hd two_branches ''AC'' ''TC'' = Inr (Some ''GA'')
   \<and> simplify_bubbles hd two_branches (\<lambda>_. 0)
       = (case solve_bubble two_branches (Some ''GA'') ''CG'' (\<lambda>_. 0) of
            Inl e \<Rightarrow> Some (Inl e)
          | Inr (g', state') \<Rightarrow> simplify_bubbles hd g' state')
   \<and> simplify_bubbles hd two_branches (\<lambda>_. 0) = Some (Inr (two_branches_simplified, \<lambda>_. 0))"
proof -
  have nb: "\<forall>node \<in> set (nodes example_graph). \<not> bubble_at example_graph node"
    using example_graph_facts(3) by (simp add: list_ex_iff)
  have first: "simplify_bubbles hd example_graph (\<lambda>_. 0) = Some (Inr (example_graph, \<lambda>_. 0))"
    using simplify_bubbles_rounds [OF example_graph_facts(1), of hd "\<lambda>_. 0"]
      example_graph_facts(2) nb by blast
  obtain a where a: "lowest_common_ancestor hd two_branches ''AC'' ''TC'' = Inr (Some a)"
      "simplify_bubbles hd two_branches (\<lambda>_. 0)
         = (case solve_bubble two_branches (Some a) ''CG'' (\<lambda>_. 0) of
              Inl e \<Rightarrow> Some (Inl e)
            | Inr (g', state') \<Rightarrow> simplify_bubbles hd g' state')"
    using simplify_bubbles_rounds [OF two_branches_facts(1), of hd "\<lambda>_. 0" "''CG''" "''AC''" "''TC''"]
      two_branches_facts(2,3,4) by blast
  from a(1) have ga: "a = ''GA''" by (simp only: two_branches_lca sum.inject option.inject)
  have round: "simplify_bubbles hd two_branches (\<lambda>_. 0)
       = (case solve_bubble two_branches (Some ''GA'') ''CG'' (\<lambda>_. 0) of
            Inl e \<Rightarrow> Some (Inl e)
          | Inr (g', state') \<Rightarrow> simplify_bubbles hd g' state')"
    using a(2) unfolding ga .
  have "simplify_bubbles hd two_branches (\<lambda>_. 0) = Some (Inr (two_branches_simplified, \<lambda>_. 0))"
    unfolding round by (simp only: two_branches_solve sum.case prod.case
        two_branches_simplified_run)
  then show ?thesis using first two_branches_lca round by blast
qed

section \<open>The walk to the lowest common ancestor terminates\<close>

text \<open>
  The walk of \<^verbatim>\<open>lowest_common_ancestor\<close> is a \<^verbatim>\<open>while True\<close> loop. On a graph
  without a cycle every step moves to a common ancestor strictly below the current one,
  so the loop returns within as many steps as there are common ancestors: the bounded
  walk of the model is the loop.
\<close>

lemma dag_iff_acyclic: "is_directed_acyclic_graph g \<longleftrightarrow> acyclic (edge_rel g)"
proof
  assume dag: "is_directed_acyclic_graph g"
  show "acyclic (edge_rel g)"
    unfolding acyclic_def
  proof (intro allI notI)
    fix x assume cyc: "(x, x) \<in> (edge_rel g)\<^sup>+"
    then obtain y where "(x, y) \<in> edge_rel g" by (auto dest: tranclD)
    then obtain e where "e \<in> set (edges g)" "fst e = (x, y)"
      by (auto simp: edge_rel_def)
    then have "(fst (fst e), fst (fst e)) \<notin> (edge_rel g)\<^sup>+" "fst (fst e) = x"
      using dag unfolding is_directed_acyclic_graph_def by auto
    with cyc show False by simp
  qed
next
  assume "acyclic (edge_rel g)"
  then show "is_directed_acyclic_graph g"
    unfolding is_directed_acyclic_graph_def acyclic_def by blast
qed

lemma successor_edge:
  assumes "s \<in> set (successors g c)"
  shows "(c, s) \<in> edge_rel g"
proof -
  from assms obtain e where "e \<in> set (edges g)" "fst (fst e) = c" "snd (fst e) = s"
    by (auto simp: successors_def)
  then have "e \<in> set (edges g)" "fst e = (c, s)" by (auto simp: prod_eq_iff)
  then show ?thesis unfolding edge_rel_def by force
qed

lemma lca_walk_bounded:
  assumes "acyclic (edge_rel g)"
    and "card {x \<in> set common. (c, x) \<in> (edge_rel g)\<^sup>+} \<le> n"
  shows "lca_walk g common c = Some (lca_descend n g common c)"
  using assms(2)
proof (induction n arbitrary: c)
  case 0
  show ?case
  proof (cases "find (\<lambda>s. s \<in> set common) (successors g c)")
    case None
    then show ?thesis by (subst lca_walk.simps) simp
  next
    case (Some s)
    then have "s \<in> set (successors g c)" "s \<in> set common"
      by (auto simp: find_Some_iff)
    then have "s \<in> {x \<in> set common. (c, x) \<in> (edge_rel g)\<^sup>+}"
      using successor_edge by fastforce
    moreover have "finite {x \<in> set common. (c, x) \<in> (edge_rel g)\<^sup>+}" by simp
    ultimately have "0 < card {x \<in> set common. (c, x) \<in> (edge_rel g)\<^sup>+}"
      using card_gt_0_iff by blast
    with "0.prems" have False by linarith
    then show ?thesis ..
  qed
next
  case (Suc n)
  show ?case
  proof (cases "find (\<lambda>s. s \<in> set common) (successors g c)")
    case None
    then show ?thesis by (subst lca_walk.simps) simp
  next
    case (Some s)
    then have s: "s \<in> set (successors g c)" "s \<in> set common"
      by (auto simp: find_Some_iff)
    have edge: "(c, s) \<in> (edge_rel g)\<^sup>+" using successor_edge [OF s(1)] by blast
    let ?below = "\<lambda>c. {x \<in> set common. (c, x) \<in> (edge_rel g)\<^sup>+}"
    have sub: "?below s \<subseteq> ?below c" using edge by (auto intro: trancl_trans)
    have "s \<notin> ?below s" using assms(1) by (auto simp: acyclic_def)
    moreover have "s \<in> ?below c" using s(2) edge by simp
    ultimately have "?below s \<subset> ?below c" using sub by blast
    then have "card (?below s) < card (?below c)"
      by (intro psubset_card_mono) simp_all
    then have "card (?below s) \<le> n" using Suc.prems by simp
    then have "lca_walk g common s = Some (lca_descend n g common s)" by (rule Suc.IH)
    then show ?thesis using Some by (subst lca_walk.simps) simp
  qed
qed

lemma lca_walk_descend:
  assumes "is_directed_acyclic_graph g"
  shows "lca_walk g common c = Some (lca_descend (length common) g common c)"
proof -
  have "card {x \<in> set common. (c, x) \<in> (edge_rel g)\<^sup>+} \<le> card (set common)"
    by (intro card_mono) auto
  also have "\<dots> \<le> length common" by (rule card_length)
  finally have le: "card {x \<in> set common. (c, x) \<in> (edge_rel g)\<^sup>+} \<le> length common" .
  have ac: "acyclic (edge_rel g)" using assms by (simp add: dag_iff_acyclic)
  show ?thesis by (rule lca_walk_bounded [OF ac le])
qed

lemma lowest_common_ancestor_walk:
  assumes "lowest_common_ancestor pick g v w = Inr (Some a)"
  shows "lca_walk g (common_ancestors g v w) (pick (common_ancestors g v w)) = Some a"
proof -
  from assms have dag: "is_directed_acyclic_graph g"
    and a: "a = lca_descend (length (common_ancestors g v w)) g (common_ancestors g v w)
                  (pick (common_ancestors g v w))"
    by (auto simp: lowest_common_ancestor_def Let_def split: if_splits)
  show ?thesis unfolding a by (rule lca_walk_descend [OF dag])
qed

section \<open>A run of the bubble simplification that does not return\<close>

text \<open>
  Termination is a real restriction in C5. In the graph of four reads \<open>ACCG\<close> and one
  read \<open>ACG\<close> the bubble from \<open>AC\<close> to \<open>CG\<close> has the two paths \<open>AC, CC, CG\<close> and
  \<open>AC, CG\<close>. The first one wins, the loser has no inner node, so nothing is removed and
  the next round finds the same bubble: the recursion never ends (in the interpreter,
  until \<^verbatim>\<open>RecursionError\<close>).
\<close>

lemma chord_graph_built:
  "build_graph (build_kmer_dict [''ACCG'', ''ACCG'', ''ACCG'', ''ACCG'', ''ACG''] 3) = chord_graph"
  by code_simp

lemma chord_graph_scan:
  "scan_nodes hd chord_graph (nodes chord_graph) (False, None) = Inr (Some (Some ''AC'', ''CG''))"
  by code_simp

lemma chord_graph_paths:
  "all_simple_paths chord_graph ''AC'' ''CG'' = Inr [[''AC'', ''CC'', ''CG''], [''AC'', ''CG'']]"
  by code_simp

lemma chord_graph_weights:
  "sequence_err (map (path_average_weight chord_graph)
                     [[''AC'', ''CC'', ''CG''], [''AC'', ''CG'']]) = Inr [3, 1]"
  by (simp add: path_average_weight_def subgraph_weights_def mean_def chord_graph_def)

lemma chord_graph_select:
  "select_best_path chord_graph [[''AC'', ''CC'', ''CG''], [''AC'', ''CG'']] [3, 2] [3, 1]
        False False state = Inr (chord_graph, state)"
  by (simp add: select_best_path_def best_path_index_def variance_def py_max_def py_index_def
     paths_to_remove_def enumerate_eq_zip upt_rec)

lemma chord_graph_solve:
  "solve_bubble chord_graph (Some ''AC'') ''CG'' state = Inr (chord_graph, state)"
proof -
  have lens: "map (int \<circ> length) [[''AC'', ''CC'', ''CG''], [''AC'', ''CG'']] = [3, 2]"
    by simp
  show ?thesis
    unfolding solve_bubble_def
    by (simp only: chord_graph_paths chord_graph_weights lens chord_graph_select
          sum.case option.case)
qed

lemma chord_graph_never_returns:
  assumes "simplify_bubbles pick g state = Some r"
  shows "\<not> (pick = hd \<and> g = chord_graph)"
proof (rule simplify_bubbles.raw_induct
    [where P = "\<lambda>pick g state r. \<not> (pick = hd \<and> g = chord_graph)", OF _ assms],
    goal_cases)
  case (1 f pick g state r)
  show ?case
  proof
    assume a: "pick = hd \<and> g = chord_graph"
    with 1(2) have "f hd chord_graph state = Some r"
      by (simp add: chord_graph_scan chord_graph_solve)
    from 1(1) [OF this] show False by simp
  qed
qed

lemma simplify_bubbles_diverges: "simplify_bubbles hd chord_graph state = None"
proof (cases "simplify_bubbles hd chord_graph state")
  case None
  then show ?thesis .
next
  case (Some r)
  from chord_graph_never_returns [OF this] show ?thesis by simp
qed

end
